theory Spec2Isabelle
  imports Main "HOL-Library.Multiset" "HOL-Library.Char_ord" "HOL-Library.List_Lexorder"
begin

section \<open>The ordered map of orderedmap.go\<close>

text \<open>
  The container is generic in its element type \<open>T\<close>. Where the Go code reads a map at a
  key that is absent it obtains the zero value of \<open>T\<close>; the zero value is the constant
  \<open>default\<close> of the type class of that name.

  A Go map can be \<open>nil\<close>: reading and deleting treat a nil map as the empty map, writing
  to it panics. The field \<open>values\<close> is therefore an optional map, \<open>None\<close> being nil.
  (The field is called \<open>vals\<close> here and the fields of a pair \<open>Key\<close> and \<open>Value\<close>, after
  the accessor methods, since \<open>values\<close> and \<open>value\<close> are reserved words.)
\<close>

datatype error =
    EOF
  | SyntaxError
  | UnmarshalTypeError
  | UnsupportedValue
  | NilMapAssignment
  | TypeAssertion
  | IndexOutOfRange

record 'v Pair =
  Key :: string
  Value :: 'v

type_synonym 'v gomap = "(string \<rightharpoonup> 'v) option"

record 'v OrderedMap =
  keys :: "string list"
  vals :: "'v gomap"
  escapeHTML :: bool

text \<open>\<open>v, ok := m[key]\<close> on a map that may be nil.\<close>

definition map_read :: "'v gomap \<Rightarrow> string \<Rightarrow> 'v option" where
  "map_read m key = (case m of None \<Rightarrow> None | Some f \<Rightarrow> f key)"

text \<open>\<open>m[key]\<close> as an expression: the zero value when the key is absent.\<close>

definition map_index :: "('v::default) gomap \<Rightarrow> string \<Rightarrow> 'v" where
  "map_index m key = (case map_read m key of None \<Rightarrow> default | Some v \<Rightarrow> v)"

text \<open>\<open>delete(m, key)\<close>: no effect on a nil map.\<close>

definition map_delete :: "'v gomap \<Rightarrow> string \<Rightarrow> 'v gomap" where
  "map_delete m key = (case m of None \<Rightarrow> None | Some f \<Rightarrow> Some (f(key := None)))"

definition map_keys :: "'v gomap \<Rightarrow> string set" where
  "map_keys m = (case m of None \<Rightarrow> {} | Some f \<Rightarrow> dom f)"

definition New :: "'v OrderedMap" where
  "New = \<lparr>keys = [], vals = Some Map.empty, escapeHTML = True\<rparr>"

definition SetEscapeHTML :: "bool \<Rightarrow> 'v OrderedMap \<Rightarrow> 'v OrderedMap" where
  "SetEscapeHTML on om = om\<lparr>escapeHTML := on\<rparr>"

definition Get :: "string \<Rightarrow> ('v::default) OrderedMap \<Rightarrow> 'v \<times> bool" where
  "Get key om = (case map_read (vals om) key of None \<Rightarrow> (default, False) | Some v \<Rightarrow> (v, True))"

text \<open>
  \<open>Set\<close> appends the key when the map does not hold it, then stores the value. The store
  panics on a nil map (after the key was appended; the panic is the result).
\<close>

definition Set :: "string \<Rightarrow> 'v \<Rightarrow> 'v OrderedMap \<Rightarrow> error + 'v OrderedMap" where
  "Set key v om =
     (let exists = (map_read (vals om) key \<noteq> None);
          om1 = (if \<not> exists then om\<lparr>keys := keys om @ [key]\<rparr> else om)
      in case vals om1 of
           None \<Rightarrow> Inl NilMapAssignment
         | Some f \<Rightarrow> Inr (om1\<lparr>vals := Some (f(key \<mapsto> v))\<rparr>))"

text \<open>
  The loop \<open>for i, k := range ks { if k == key { ...; break } }\<close>: the index of the first
  slot holding the key, counted from \<open>i\<close>.
\<close>

fun find_key :: "string \<Rightarrow> string list \<Rightarrow> nat \<Rightarrow> nat option" where
  "find_key key [] i = None"
| "find_key key (k # ks) i = (if k = key then Some i else find_key key ks (Suc i))"

definition Delete :: "string \<Rightarrow> 'v OrderedMap \<Rightarrow> 'v OrderedMap" where
  "Delete key om =
     (case map_read (vals om) key of
        None \<Rightarrow> om
      | Some _ \<Rightarrow>
          (let ks = (case find_key key (keys om) 0 of
                       None \<Rightarrow> keys om
                     | Some i \<Rightarrow> take i (keys om) @ drop (i + 1) (keys om))
           in om\<lparr>keys := ks, vals := map_delete (vals om) key\<rparr>))"

definition Keys :: "'v OrderedMap \<Rightarrow> string list" where
  "Keys om = keys om"

text \<open>A sequence of \<open>Set\<close> calls, stopping at the first panic.\<close>

fun SetAll :: "(string \<times> 'v) list \<Rightarrow> 'v OrderedMap \<Rightarrow> error + 'v OrderedMap" where
  "SetAll [] om = Inr om"
| "SetAll ((k, v) # kvs) om = (case Set k v om of Inl e \<Rightarrow> Inl e | Inr om' \<Rightarrow> SetAll kvs om')"

instantiation int :: default
begin
definition default_int :: int where "default_int = 0"
instance ..
end

text \<open>The data of the sorting tests: \<open>{"b": 2, "a": 1, "c": 3}\<close>.\<close>

definition example_map :: "int OrderedMap" where
  "example_map =
     \<lparr>keys = [''b'', ''a'', ''c''],
      vals = Some [''b'' \<mapsto> 2, ''a'' \<mapsto> 1, ''c'' \<mapsto> 3],
      escapeHTML = True\<rparr>"

section \<open>Sorting\<close>

text \<open>
  \<open>SortKeys\<close> hands the slice of keys to the caller's function, which can write its
  elements but cannot change its length. The function is given by the contents it
  leaves; \<open>in_place xs ys\<close> is what a slice that held \<open>xs\<close> holds after \<open>ys\<close> was
  written into it from the front.
\<close>

definition in_place :: "'a list \<Rightarrow> 'a list \<Rightarrow> 'a list" where
  "in_place xs ys = take (length xs) ys @ drop (length ys) xs"

definition SortKeys :: "(string list \<Rightarrow> string list) \<Rightarrow> 'v OrderedMap \<Rightarrow> 'v OrderedMap" where
  "SortKeys sortFunc om = om\<lparr>keys := in_place (keys om) (sortFunc (keys om))\<rparr>"

text \<open>
  \<open>Sort\<close> builds one pair for every key, sorts the pairs with the library's \<open>sort.Sort\<close>
  through \<open>ByPair\<close> (whose \<open>Less\<close> applies the caller's function to two pairs and whose
  \<open>Swap\<close> exchanges two of them), and writes the keys of the pairs back slot by slot.
  \<open>sort.Sort\<close> belongs to the Go standard library, not to the repository: it is the
  parameter \<open>sort_Sort\<close>, the contents it leaves in the slice of pairs.
\<close>

definition make_pairs :: "('v::default) OrderedMap \<Rightarrow> 'v Pair list" where
  "make_pairs om = map (\<lambda>k. \<lparr>Key = k, Value = map_index (vals om) k\<rparr>) (keys om)"

definition write_keys :: "'v Pair list \<Rightarrow> string list \<Rightarrow> string list" where
  "write_keys pairs ks = fold (\<lambda>(i, pair) ks. ks[i := Key pair]) (enumerate 0 pairs) ks"

definition Sort ::
  "(('v Pair \<Rightarrow> 'v Pair \<Rightarrow> bool) \<Rightarrow> 'v Pair list \<Rightarrow> 'v Pair list) \<Rightarrow>
   ('v Pair \<Rightarrow> 'v Pair \<Rightarrow> bool) \<Rightarrow> ('v::default) OrderedMap \<Rightarrow> 'v OrderedMap" where
  "Sort sort_Sort lessFunc om =
     (let pairs = make_pairs om;
          pairs' = in_place pairs (sort_Sort lessFunc pairs)
      in om\<lparr>keys := write_keys pairs' (keys om)\<rparr>)"

text \<open>
  The specification's words, "a stable sort over the pairs": insertion from the left,
  each element placed before the first one it is less than, so that elements the
  comparator does not order keep their order.
\<close>

fun insort_by :: "('a \<Rightarrow> 'a \<Rightarrow> bool) \<Rightarrow> 'a \<Rightarrow> 'a list \<Rightarrow> 'a list" where
  "insort_by lf x [] = [x]"
| "insort_by lf x (y # ys) = (if lf x y then x # y # ys else y # insort_by lf x ys)"

definition stable_sort_by :: "('a \<Rightarrow> 'a \<Rightarrow> bool) \<Rightarrow> 'a list \<Rightarrow> 'a list" where
  "stable_sort_by lf xs = foldl (\<lambda>acc x. insort_by lf x acc) [] xs"

text \<open>
  What \<open>sort.Sort\<close> documents: the result is a rearrangement of the input in which no
  element is less than one before it. (It is documented as not guaranteed to be stable.)
\<close>

definition sorts_by :: "('a \<Rightarrow> 'a \<Rightarrow> bool) \<Rightarrow> 'a list \<Rightarrow> 'a list \<Rightarrow> bool" where
  "sorts_by lf xs ys \<longleftrightarrow> mset ys = mset xs \<and> sorted_wrt (\<lambda>a b. \<not> lf b a) ys"

definition strict_linear_on :: "('a \<Rightarrow> 'a \<Rightarrow> bool) \<Rightarrow> 'a set \<Rightarrow> bool" where
  "strict_linear_on lf A \<longleftrightarrow>
     (\<forall>a\<in>A. \<forall>b\<in>A. lf a b \<longrightarrow> \<not> lf b a)
     \<and> (\<forall>a\<in>A. \<forall>b\<in>A. \<forall>c\<in>A. lf a b \<longrightarrow> lf b c \<longrightarrow> lf a c)
     \<and> (\<forall>a\<in>A. \<forall>b\<in>A. a \<noteq> b \<longrightarrow> lf a b \<or> lf b a)"

text \<open>
  One \<open>sort.Sort\<close> that the toolchain has shipped: Go 1.18, the first release that
  compiles the generic container, sorts a slice of at most 12 elements by one pass that
  compares and exchanges the elements six apart, followed by insertion sort
  (\<open>quickSort\<close> and \<open>insertionSort\<close> of its \<open>sort\<close> package).
\<close>

definition Swap :: "nat \<Rightarrow> nat \<Rightarrow> 'a list \<Rightarrow> 'a list" where
  "Swap i j xs = xs[i := xs ! j, j := xs ! i]"

fun insertion_loop :: "('a \<Rightarrow> 'a \<Rightarrow> bool) \<Rightarrow> nat \<Rightarrow> 'a list \<Rightarrow> 'a list" where
  "insertion_loop lf 0 xs = xs"
| "insertion_loop lf (Suc j) xs =
     (if lf (xs ! Suc j) (xs ! j) then insertion_loop lf j (Swap (Suc j) j xs) else xs)"

definition insertionSort :: "('a \<Rightarrow> 'a \<Rightarrow> bool) \<Rightarrow> 'a list \<Rightarrow> 'a list" where
  "insertionSort lf xs = fold (insertion_loop lf) [1..<length xs] xs"

definition shell_pass :: "('a \<Rightarrow> 'a \<Rightarrow> bool) \<Rightarrow> 'a list \<Rightarrow> 'a list" where
  "shell_pass lf xs =
     fold (\<lambda>i xs. if lf (xs ! i) (xs ! (i - 6)) then Swap i (i - 6) xs else xs) [6..<length xs] xs"

definition sort_small_go118 :: "('a \<Rightarrow> 'a \<Rightarrow> bool) \<Rightarrow> 'a list \<Rightarrow> 'a list" where
  "sort_small_go118 lf xs = insertionSort lf (shell_pass lf xs)"


text \<open>
  The comparators of the examples: "descending numeric value" of the sorting test, and
  ascending value; and a container in which six of seven values are equal.
\<close>

definition by_value_descending :: "int Pair \<Rightarrow> int Pair \<Rightarrow> bool" where
  "by_value_descending a b \<longleftrightarrow> Value a > Value b"

definition by_value :: "int Pair \<Rightarrow> int Pair \<Rightarrow> bool" where
  "by_value a b \<longleftrightarrow> Value a < Value b"

definition tie_map :: "int OrderedMap" where
  "tie_map =
     \<lparr>keys = [''a'', ''b'', ''c'', ''d'', ''e'', ''f'', ''g''],
      vals = Some [''a'' \<mapsto> 2, ''b'' \<mapsto> 1, ''c'' \<mapsto> 1, ''d'' \<mapsto> 1, ''e'' \<mapsto> 1, ''f'' \<mapsto> 1, ''g'' \<mapsto> 1],
      escapeHTML = True\<rparr>"

section \<open>Decoding\<close>

text \<open>
  The JSON scanner, tokenizer and value decoder belong to Go's \<open>encoding/json\<close>, not to
  the repository. What the scanner makes of a text is a document tree: the members of an
  object in the order of the text, a repeated key as often as it is written. Numbers are
  integers here.
\<close>

datatype jvalue =
    JNull
  | JBool bool
  | JNumber int
  | JString string
  | JArray "jvalue list"
  | JObject "(string \<times> jvalue) list"

text \<open>
  \<open>Decoder.Token\<close> returns the delimiters \<open>{ } [ ]\<close> and the literals; commas and
  colons are not tokens. A decoder is the tokens it has not returned yet and the error it
  reports once they are used up (\<open>io.EOF\<close> at the end of a well-formed text).
\<close>

datatype token = Delim char | TString string | TNumber int | TBool bool | TNull

record Decoder =
  tokens :: "token list"
  tail_error :: error

definition Token :: "Decoder \<Rightarrow> (error + token) \<times> Decoder" where
  "Token dec =
     (case tokens dec of
        [] \<Rightarrow> (Inl (tail_error dec), dec)
      | t # ts \<Rightarrow> (Inr t, dec\<lparr>tokens := ts\<rparr>))"

text \<open>\<open>&OrderedMap[T]{}\<close>, the zero value of the struct.\<close>

definition zero_OrderedMap :: "'v OrderedMap" where
  "zero_OrderedMap = \<lparr>keys = [], vals = None, escapeHTML = False\<rparr>"

text \<open>
  A key seen before: the first slot that holds it is closed by \<open>copy\<close>, which moves the
  slots behind it one place to the front and leaves the last slot as it was; then the
  last slot is overwritten with the key (a panic when there is no slot).
\<close>

definition move_to_end :: "string \<Rightarrow> string list \<Rightarrow> error + string list" where
  "move_to_end key ks =
     (let ks1 = (case find_key key ks 0 of
                   None \<Rightarrow> ks
                 | Some j \<Rightarrow> take j ks @ drop (j + 1) ks @ drop (length ks - 1) ks)
      in if ks1 = [] then Inl IndexOutOfRange else Inr (ks1[length ks1 - 1 := key]))"

text \<open>The bookkeeping for one key: \<open>hasKey\<close> and the key order after it.\<close>

definition note_key :: "string \<Rightarrow> string set \<Rightarrow> string list \<Rightarrow> error + string set \<times> string list" where
  "note_key key hasKey ks =
     (if key \<in> hasKey
      then (case move_to_end key ks of Inl e \<Rightarrow> Inl e | Inr ks' \<Rightarrow> Inr (hasKey, ks'))
      else Inr (insert key hasKey, ks @ [key]))"

text \<open>
  The loops of \<open>decodeOrderedMap\<close> and \<open>decodeSlice\<close>. \<open>decodeOrderedMap\<close> starts its loop
  with an empty \<open>hasKey\<close>; the calls it and \<open>decodeSlice\<close> make for a nested object pass
  a new zero container, whose key order is dropped when the call returns. The result is
  the error (\<open>None\<close> for \<open>nil\<close>), the decoder and the container as the call leaves them.
  \<open>token.(string)\<close> panics on a token that is not a string.
\<close>

function decodeOrderedMap_loop ::
    "Decoder \<Rightarrow> string set \<Rightarrow> 'v OrderedMap \<Rightarrow> error option \<times> Decoder \<times> 'v OrderedMap"
  and decodeSlice_loop :: "Decoder \<Rightarrow> 'v list \<Rightarrow> bool \<Rightarrow> nat \<Rightarrow> error option \<times> Decoder"
where
  "decodeOrderedMap_loop dec hasKey om =
     (case Token dec of
        (Inl err, dec1) \<Rightarrow> (Some err, dec1, om)
      | (Inr token, dec1) \<Rightarrow>
          if token = Delim CHR ''}'' then (None, dec1, om)
          else (case token of
            TString key \<Rightarrow>
              (case note_key key hasKey (keys om) of
                 Inl e \<Rightarrow> (Some e, dec1, om)
               | Inr (hasKey1, ks) \<Rightarrow>
                   (case Token dec1 of
                      (Inl err, dec2) \<Rightarrow> (Some err, dec2, om\<lparr>keys := ks\<rparr>)
                    | (Inr token2, dec2) \<Rightarrow>
                        if token2 = Delim CHR ''{'' then
                          (case decodeOrderedMap_loop dec2 {} zero_OrderedMap of
                             (Some err, dec3, _) \<Rightarrow> (Some err, dec3, om\<lparr>keys := ks\<rparr>)
                           | (None, dec3, _) \<Rightarrow> decodeOrderedMap_loop dec3 hasKey1 (om\<lparr>keys := ks\<rparr>))
                        else if token2 = Delim CHR ''['' then
                          (case decodeSlice_loop dec2 [] (escapeHTML om) 0 of
                             (Some err, dec3) \<Rightarrow> (Some err, dec3, om\<lparr>keys := ks\<rparr>)
                           | (None, dec3) \<Rightarrow> decodeOrderedMap_loop dec3 hasKey1 (om\<lparr>keys := ks\<rparr>))
                        else decodeOrderedMap_loop dec2 hasKey1 (om\<lparr>keys := ks\<rparr>)))
          | _ \<Rightarrow> (Some TypeAssertion, dec1, om)))"
| "decodeSlice_loop dec s esc index =
     (case Token dec of
        (Inl err, dec1) \<Rightarrow> (Some err, dec1)
      | (Inr token, dec1) \<Rightarrow>
          if token = Delim CHR ''{'' then
            (if index < length s then
               (case decodeOrderedMap_loop dec1 {} zero_OrderedMap of
                  (Some err, dec2, _) \<Rightarrow> (Some err, dec2)
                | (None, dec2, _) \<Rightarrow> decodeSlice_loop dec2 s esc (index + 1))
             else
               (case decodeOrderedMap_loop dec1 {} zero_OrderedMap of
                  (Some err, dec2, _) \<Rightarrow> (Some err, dec2)
                | (None, dec2, _) \<Rightarrow> decodeSlice_loop dec2 s esc (index + 1)))
          else if token = Delim CHR ''['' then
            (case decodeSlice_loop dec1 [] esc 0 of
               (Some err, dec2) \<Rightarrow> (Some err, dec2)
             | (None, dec2) \<Rightarrow> decodeSlice_loop dec2 s esc (index + 1))
          else if token = Delim CHR '']'' then (None, dec1)
          else decodeSlice_loop dec1 s esc (index + 1))"
  by pat_completeness auto


text \<open>Termination: every call returns a decoder with no more tokens than it was given.\<close>

lemma Token_Inr_length: "Token dec = (Inr t, dec') \<Longrightarrow> length (tokens dec') < length (tokens dec)"
  by (auto simp: Token_def split: list.splits)

lemma Token_Inl_same: "Token dec = (Inl e, dec') \<Longrightarrow> dec' = dec"
  by (auto simp: Token_def split: list.splits)

lemma decode_loops_consume:
  fixes om :: "'a OrderedMap" and s :: "'a list"
  shows
  "decodeOrderedMap_loop_decodeSlice_loop_dom (Inl (dec, hasKey, om)) \<Longrightarrow>
     length (tokens (fst (snd (decodeOrderedMap_loop dec hasKey om)))) \<le> length (tokens dec)"
  and "decodeOrderedMap_loop_decodeSlice_loop_dom (Inr (dec', s, esc, index)) \<Longrightarrow>
     length (tokens (snd (decodeSlice_loop dec' s esc index))) \<le> length (tokens dec')"
proof (induct dec hasKey om and dec' s esc index rule: decodeOrderedMap_loop_decodeSlice_loop.pinduct)
  case (1 dec hasKey om)
  show ?case
  proof (cases "Token dec")
    case (Pair r dec1)
    show ?thesis
    proof (cases r)
      case (Inl err)
      with Pair show ?thesis
        by (auto simp: decodeOrderedMap_loop.psimps [OF "1.hyps"(1)] dest: Token_Inl_same)
    next
      case (Inr token)
      note tok1 = Pair [unfolded Inr]
      note l1 = Token_Inr_length [OF tok1]
      show ?thesis
      proof (cases "\<exists>key. token = TString key \<and> (\<exists>hk ks. note_key key hasKey (keys om) = Inr (hk, ks))")
        case False
        with tok1 l1 show ?thesis
          by (auto simp: decodeOrderedMap_loop.psimps [OF "1.hyps"(1)] split: token.splits sum.splits)
      next
        case True
        then obtain key hk ks where key: "token = TString key"
          and nk: "note_key key hasKey (keys om) = Inr (hk, ks)" by blast
        have ne: "token \<noteq> Delim CHR ''}''" using key by simp
        show ?thesis
        proof (cases "Token dec1")
          case (Pair r2 dec2)
          show ?thesis
          proof (cases r2)
            case (Inl err)
            with Pair tok1 l1 key nk show ?thesis
              by (auto simp: decodeOrderedMap_loop.psimps [OF "1.hyps"(1)] dest: Token_Inl_same)
          next
            case (Inr token2)
            note tok2 = Pair [unfolded Inr]
            note l2 = Token_Inr_length [OF tok2]
            consider (obj) "token2 = Delim CHR ''{''"
              | (arr) "token2 \<noteq> Delim CHR ''{''" "token2 = Delim CHR ''[''"
              | (other) "token2 \<noteq> Delim CHR ''{''" "token2 \<noteq> Delim CHR ''[''" by blast
            then show ?thesis
            proof cases
              case obj
              obtain e3 dec3 om3 where r3: "decodeOrderedMap_loop dec2 {} (zero_OrderedMap :: 'a OrderedMap) = (e3, dec3, om3)"
                by (cases "decodeOrderedMap_loop dec2 {} (zero_OrderedMap :: 'a OrderedMap)") auto
              have l3: "length (tokens dec3) \<le> length (tokens dec2)"
                using "1.hyps"(2) [OF tok1 [symmetric] refl ne key nk refl tok2 [symmetric] refl obj] r3 by simp
              show ?thesis
              proof (cases e3)
                case None
                have "length (tokens (fst (snd (decodeOrderedMap_loop dec3 hk (om\<lparr>keys := ks\<rparr>))))) \<le> length (tokens dec3)"
                  using "1.hyps"(3) [OF tok1 [symmetric] refl ne key nk refl tok2 [symmetric] refl obj r3 [symmetric, unfolded None] refl refl] .
                with l1 l2 l3 tok1 tok2 key nk obj r3 None show ?thesis
                  by (simp add: decodeOrderedMap_loop.psimps [OF "1.hyps"(1)])
              next
                case (Some e)
                with l1 l2 l3 tok1 tok2 key nk obj r3 show ?thesis
                  by (simp add: decodeOrderedMap_loop.psimps [OF "1.hyps"(1)])
              qed
            next
              case arr
              obtain e3 dec3 where r3: "decodeSlice_loop dec2 ([] :: 'a list) (escapeHTML om) 0 = (e3, dec3)"
                by (cases "decodeSlice_loop dec2 ([] :: 'a list) (escapeHTML om) 0") auto
              have l3: "length (tokens dec3) \<le> length (tokens dec2)"
                using "1.hyps"(4) [OF tok1 [symmetric] refl ne key nk refl tok2 [symmetric] refl arr] r3 by simp
              show ?thesis
              proof (cases e3)
                case None
                have "length (tokens (fst (snd (decodeOrderedMap_loop dec3 hk (om\<lparr>keys := ks\<rparr>))))) \<le> length (tokens dec3)"
                  using "1.hyps"(5) [OF tok1 [symmetric] refl ne key nk refl tok2 [symmetric] refl arr r3 [symmetric, unfolded None] refl] .
                with l1 l2 l3 tok1 tok2 key nk arr r3 None show ?thesis
                  by (simp add: decodeOrderedMap_loop.psimps [OF "1.hyps"(1)])
              next
                case (Some e)
                with l1 l2 l3 tok1 tok2 key nk arr r3 show ?thesis
                  by (simp add: decodeOrderedMap_loop.psimps [OF "1.hyps"(1)])
              qed
            next
              case other
              have "length (tokens (fst (snd (decodeOrderedMap_loop dec2 hk (om\<lparr>keys := ks\<rparr>))))) \<le> length (tokens dec2)"
                using "1.hyps"(6) [OF tok1 [symmetric] refl ne key nk refl tok2 [symmetric] refl other] .
              with l1 l2 tok1 tok2 key nk other show ?thesis
                by (simp add: decodeOrderedMap_loop.psimps [OF "1.hyps"(1)])
            qed
          qed
        qed
      qed
    qed
  qed
next
  case (2 dec s esc index)
  show ?case
  proof (cases "Token dec")
    case (Pair r dec1)
    show ?thesis
    proof (cases r)
      case (Inl err)
      with Pair show ?thesis
        by (auto simp: decodeSlice_loop.psimps [OF "2.hyps"(1)] dest: Token_Inl_same)
    next
      case (Inr token)
      note tok1 = Pair [unfolded Inr]
      note l1 = Token_Inr_length [OF tok1]
      consider (obj) "token = Delim CHR ''{''"
        | (arr) "token \<noteq> Delim CHR ''{''" "token = Delim CHR ''[''"
        | (close) "token \<noteq> Delim CHR ''{''" "token \<noteq> Delim CHR ''[''" "token = Delim CHR '']''"
        | (other) "token \<noteq> Delim CHR ''{''" "token \<noteq> Delim CHR ''[''" "token \<noteq> Delim CHR '']''"
        by blast
      then show ?thesis
      proof cases
        case obj
        obtain e2 dec2 om2 where r2: "decodeOrderedMap_loop dec1 {} (zero_OrderedMap :: 'a OrderedMap) = (e2, dec2, om2)"
          by (cases "decodeOrderedMap_loop dec1 {} (zero_OrderedMap :: 'a OrderedMap)") auto
        show ?thesis
        proof (cases "index < length s")
          case True
          have l2: "length (tokens dec2) \<le> length (tokens dec1)"
            using "2.hyps"(2) [OF tok1 [symmetric] refl obj True] r2 by simp
          show ?thesis
          proof (cases e2)
            case None
            have "length (tokens (snd (decodeSlice_loop dec2 s esc (index + 1)))) \<le> length (tokens dec2)"
              using "2.hyps"(3) [OF tok1 [symmetric] refl obj True r2 [symmetric, unfolded None] refl refl] .
            with l1 l2 tok1 obj True r2 None show ?thesis
              by (simp add: decodeSlice_loop.psimps [OF "2.hyps"(1)])
          next
            case (Some e)
            with l1 l2 tok1 obj True r2 show ?thesis
              by (simp add: decodeSlice_loop.psimps [OF "2.hyps"(1)])
          qed
        next
          case False
          have l2: "length (tokens dec2) \<le> length (tokens dec1)"
            using "2.hyps"(4) [OF tok1 [symmetric] refl obj False] r2 by simp
          show ?thesis
          proof (cases e2)
            case None
            have "length (tokens (snd (decodeSlice_loop dec2 s esc (index + 1)))) \<le> length (tokens dec2)"
              using "2.hyps"(5) [OF tok1 [symmetric] refl obj False r2 [symmetric, unfolded None] refl refl] .
            with l1 l2 tok1 obj False r2 None show ?thesis
              by (simp add: decodeSlice_loop.psimps [OF "2.hyps"(1)])
          next
            case (Some e)
            with l1 l2 tok1 obj False r2 show ?thesis
              by (simp add: decodeSlice_loop.psimps [OF "2.hyps"(1)])
          qed
        qed
      next
        case arr
        obtain e2 dec2 where r2: "decodeSlice_loop dec1 ([] :: 'a list) esc 0 = (e2, dec2)"
          by (cases "decodeSlice_loop dec1 ([] :: 'a list) esc 0") auto
        have l2: "length (tokens dec2) \<le> length (tokens dec1)"
          using "2.hyps"(6) [OF tok1 [symmetric] refl arr] r2 by simp
        show ?thesis
        proof (cases e2)
          case None
          have "length (tokens (snd (decodeSlice_loop dec2 s esc (index + 1)))) \<le> length (tokens dec2)"
            using "2.hyps"(7) [OF tok1 [symmetric] refl arr r2 [symmetric, unfolded None] refl] .
          with l1 l2 tok1 arr r2 None show ?thesis
            by (simp add: decodeSlice_loop.psimps [OF "2.hyps"(1)])
        next
          case (Some e)
          with l1 l2 tok1 arr r2 show ?thesis
            by (simp add: decodeSlice_loop.psimps [OF "2.hyps"(1)])
        qed
      next
        case close
        with l1 tok1 show ?thesis
          by (simp add: decodeSlice_loop.psimps [OF "2.hyps"(1)])
      next
        case other
        have "length (tokens (snd (decodeSlice_loop dec1 s esc (index + 1)))) \<le> length (tokens dec1)"
          using "2.hyps"(8) [OF tok1 [symmetric] refl other] .
        with l1 tok1 other show ?thesis
          by (simp add: decodeSlice_loop.psimps [OF "2.hyps"(1)])
      qed
    qed
  qed
qed

lemma Token_Inr_iff:
  "Token dec = (Inr t, dec') \<longleftrightarrow> (\<exists>ts. tokens dec = t # ts \<and> dec' = dec\<lparr>tokens := ts\<rparr>)"
  by (auto simp: Token_def split: list.splits)

lemma map_loop_consumes:
  fixes om :: "'a OrderedMap"
  shows "decodeOrderedMap_loop_decodeSlice_loop_dom (Inl (dec, hasKey, om)) \<Longrightarrow>
   (e, dec', om') = decodeOrderedMap_loop dec hasKey om \<Longrightarrow> length (tokens dec') \<le> length (tokens dec)"
  using decode_loops_consume(1) [of dec hasKey om] by (cases "decodeOrderedMap_loop dec hasKey om") auto

lemma slice_loop_consumes:
  fixes s :: "'a list"
  shows "decodeOrderedMap_loop_decodeSlice_loop_dom (Inr (dec, s, esc, index)) \<Longrightarrow>
   (e, dec') = decodeSlice_loop dec s esc index \<Longrightarrow> length (tokens dec') \<le> length (tokens dec)"
  using decode_loops_consume(2) [of dec s esc index] by (cases "decodeSlice_loop dec s esc index") auto

termination decodeOrderedMap_loop
  apply (relation "measure (\<lambda>x. case x of Inl (dec, hasKey, om) \<Rightarrow> length (tokens dec)
                                     | Inr (dec, s, esc, index) \<Rightarrow> length (tokens dec))")
  apply simp
  apply (auto simp: Token_Inr_iff dest!: sym [of "(_, _)" "Token _"])
  subgoal by (drule (1) map_loop_consumes) simp
  subgoal by (drule (1) slice_loop_consumes) simp
  subgoal by (drule (1) map_loop_consumes) simp
  subgoal by (drule (1) map_loop_consumes) simp
  subgoal by (drule (1) slice_loop_consumes) simp
  done

definition decodeOrderedMap :: "Decoder \<Rightarrow> 'v OrderedMap \<Rightarrow> error option \<times> Decoder \<times> 'v OrderedMap" where
  "decodeOrderedMap dec om = decodeOrderedMap_loop dec {} om"

definition decodeSlice :: "Decoder \<Rightarrow> 'v list \<Rightarrow> bool \<Rightarrow> error option \<times> Decoder" where
  "decodeSlice dec s esc = decodeSlice_loop dec s esc 0"


declare decodeOrderedMap_loop.simps [simp del] decodeSlice_loop.simps [simp del]

text \<open>The token stream of a document, as \<open>Decoder.Token\<close> hands it out.\<close>

fun tokens_of :: "jvalue \<Rightarrow> token list" where
  "tokens_of JNull = [TNull]"
| "tokens_of (JBool b) = [TBool b]"
| "tokens_of (JNumber n) = [TNumber n]"
| "tokens_of (JString s) = [TString s]"
| "tokens_of (JArray vs) = Delim CHR ''['' # concat (map tokens_of vs) @ [Delim CHR '']'']"
| "tokens_of (JObject ms) =
     Delim CHR ''{'' # concat (map (\<lambda>m. TString (fst m) # tokens_of (snd m)) ms) @ [Delim CHR ''}'']"

definition member_tokens :: "(string \<times> jvalue) list \<Rightarrow> token list" where
  "member_tokens ms = concat (map (\<lambda>m. TString (fst m) # tokens_of (snd m)) ms)"

definition element_tokens :: "jvalue list \<Rightarrow> token list" where
  "element_tokens vs = concat (map tokens_of vs)"

text \<open>
  The specification's words for the order of the keys: "process members left to right;
  on first sight of a key, append it to order; on a repeat sighting, remove its previous
  slot from order and re-append it at the current end."
\<close>

definition reposition :: "string \<Rightarrow> string list \<Rightarrow> string list" where
  "reposition k ord = (if k \<in> set ord then remove1 k ord @ [k] else ord @ [k])"

definition last_occurrence_order :: "string list \<Rightarrow> string list" where
  "last_occurrence_order ks = foldl (\<lambda>ord k. reposition k ord) [] ks"

definition scalar :: "jvalue \<Rightarrow> bool" where
  "scalar v \<longleftrightarrow> (case v of JArray _ \<Rightarrow> False | JObject _ \<Rightarrow> False | _ \<Rightarrow> True)"

section \<open>UnmarshalJSON\<close>

text \<open>
  The library's scanner is the parameter \<open>scan\<close>: the document it reads from a text, or
  its error on a text that is not one JSON value (\<open>json.Unmarshal\<close> checks the whole text
  before it stores anything, \<open>json.NewDecoder\<close> reads the same text). The decoding of a
  JSON value into the element type \<open>T\<close> is the parameter \<open>decodeT\<close>: the value that the
  library stores for it, and the error it records when the value does not fit \<open>T\<close> (a
  string for an \<open>int\<close>, a number outside the range of the type), in which case it goes
  on decoding and returns the first such error at the end.
\<close>

definition NewDecoder :: "(string \<Rightarrow> error + jvalue) \<Rightarrow> string \<Rightarrow> Decoder" where
  "NewDecoder scan b =
     (case scan b of
        Inl e \<Rightarrow> \<lparr>tokens = [], tail_error = e\<rparr>
      | Inr doc \<Rightarrow> \<lparr>tokens = tokens_of doc, tail_error = EOF\<rparr>)"

text \<open>
  \<open>json.Unmarshal(b, &m)\<close> for a map \<open>m\<close>: the members of an object are stored into the
  map one after the other, on top of the entries the map has, a member whose value does
  not fit \<open>T\<close> included (with what the library stores for it); the error returned is the
  first one recorded. \<open>null\<close> sets the map to nil; any other value is a type error and
  leaves the map alone.
\<close>

fun store_members ::
  "(jvalue \<Rightarrow> error option \<times> 'v) \<Rightarrow> (string \<times> jvalue) list \<Rightarrow> (string \<rightharpoonup> 'v) \<Rightarrow>
   error option \<times> (string \<rightharpoonup> 'v)" where
  "store_members decodeT [] f = (None, f)"
| "store_members decodeT ((k, j) # ms) f =
     (case decodeT j of (e, v) \<Rightarrow>
        (case store_members decodeT ms (f(k \<mapsto> v)) of (e', f') \<Rightarrow>
           ((case e of None \<Rightarrow> e' | Some err \<Rightarrow> Some err), f')))"

definition json_Unmarshal ::
  "(string \<Rightarrow> error + jvalue) \<Rightarrow> (jvalue \<Rightarrow> error option \<times> 'v) \<Rightarrow> string \<Rightarrow> 'v gomap \<Rightarrow>
   error option \<times> 'v gomap" where
  "json_Unmarshal scan decodeT b m =
     (case scan b of
        Inl e \<Rightarrow> (Some e, m)
      | Inr doc \<Rightarrow>
          (case doc of
             JNull \<Rightarrow> (None, None)
           | JObject ms \<Rightarrow>
               (case store_members decodeT ms (case m of None \<Rightarrow> Map.empty | Some f \<Rightarrow> f) of
                  (e, f') \<Rightarrow> (e, Some f'))
           | _ \<Rightarrow> (Some UnmarshalTypeError, m)))"

definition UnmarshalJSON ::
  "(string \<Rightarrow> error + jvalue) \<Rightarrow> (jvalue \<Rightarrow> error option \<times> 'v) \<Rightarrow> string \<Rightarrow> 'v OrderedMap \<Rightarrow>
   error option \<times> 'v OrderedMap" where
  "UnmarshalJSON scan decodeT b om =
     (let om1 = (if vals om = None then om\<lparr>vals := Some Map.empty\<rparr> else om) in
      case json_Unmarshal scan decodeT b (vals om1) of
        (Some err, m) \<Rightarrow> (Some err, om1\<lparr>vals := m\<rparr>)
      | (None, m) \<Rightarrow>
          (let om2 = om1\<lparr>vals := m\<rparr>;
               dec = NewDecoder scan b
           in case Token dec of
                (Inl err, dec1) \<Rightarrow> (Some err, om2)
              | (Inr _, dec1) \<Rightarrow>
                  (let om3 = om2\<lparr>keys := []\<rparr>
                   in case decodeOrderedMap dec1 om3 of (err, dec2, om4) \<Rightarrow> (err, om4))))"

section \<open>Values of type interface{}\<close>

text \<open>
  The tests instantiate the container at \<open>interface{}\<close>. The values of that type that
  matter here: nil, booleans, numbers, strings, slices, maps with string keys (their
  entries listed by ascending key, each key once, the order in which the library encodes
  a map), and a channel, which the library's encoder rejects.
\<close>

datatype gvalue =
    GNil
  | GBool bool
  | GNum int
  | GStr string
  | GSlice "gvalue list"
  | GMap "(string \<times> gvalue) list"
  | GChan

instantiation gvalue :: default
begin
definition default_gvalue :: gvalue where "default_gvalue = GNil"
instance ..
end

text \<open>
  The library's decoding of a JSON value into \<open>interface{}\<close>. A number becomes a
  \<open>float64\<close>: one whose magnitude rounds beyond the largest \<open>float64\<close> is an error, and
  nil is stored in its place (the rounding of the numbers that fit is not modelled). An
  object becomes a map, a repeated key keeping the value written last.
\<close>

definition float64_limit :: int where
  "float64_limit = 2 ^ 1024 - 2 ^ 970"

fun first_error :: "error option list \<Rightarrow> error option" where
  "first_error [] = None"
| "first_error (None # es) = first_error es"
| "first_error (Some e # es) = Some e"

fun gmap_store :: "string \<Rightarrow> gvalue \<Rightarrow> (string \<times> gvalue) list \<Rightarrow> (string \<times> gvalue) list" where
  "gmap_store k v [] = [(k, v)]"
| "gmap_store k v ((k', v') # kvs) =
     (if k = k' then (k, v) # kvs
      else if k < k' then (k, v) # (k', v') # kvs
      else (k', v') # gmap_store k v kvs)"

fun decode_generic :: "jvalue \<Rightarrow> error option \<times> gvalue" where
  "decode_generic JNull = (None, GNil)"
| "decode_generic (JBool b) = (None, GBool b)"
| "decode_generic (JNumber n) =
     (if float64_limit \<le> \<bar>n\<bar> then (Some UnmarshalTypeError, GNil) else (None, GNum n))"
| "decode_generic (JString s) = (None, GStr s)"
| "decode_generic (JArray vs) =
     (first_error (map (\<lambda>v. fst (decode_generic v)) vs),
      GSlice (map (\<lambda>v. snd (decode_generic v)) vs))"
| "decode_generic (JObject ms) =
     (first_error (map (\<lambda>m. fst (decode_generic (snd m))) ms),
      GMap (foldl (\<lambda>acc m. gmap_store (fst m) (snd (decode_generic (snd m))) acc) [] ms))"

text \<open>
  The library's decoding of a JSON value into \<open>int\<close> (64 bits): a number in range is
  stored, \<open>null\<close> leaves the zero value, everything else is a type error and leaves the
  zero value.
\<close>

fun decode_int :: "jvalue \<Rightarrow> error option \<times> int" where
  "decode_int (JNumber n) =
     (if - (2 ^ 63) \<le> n \<and> n < 2 ^ 63 then (None, n) else (Some UnmarshalTypeError, 0))"
| "decode_int JNull = (None, 0)"
| "decode_int _ = (Some UnmarshalTypeError, 0)"

text \<open>
  Scanners for the examples: a table of the texts that are read and the documents read
  from them; every other text is a syntax error.
\<close>

definition scan_table :: "(string \<times> jvalue) list \<Rightarrow> string \<Rightarrow> error + jvalue" where
  "scan_table table b = (case map_of table b of None \<Rightarrow> Inl SyntaxError | Some doc \<Rightarrow> Inr doc)"

text \<open>The document of the test \<open>TestUnmarshalJSONDuplicateKeys\<close> and its text.\<close>

definition duplicate_keys_doc :: jvalue where
  "duplicate_keys_doc = JObject
     [(''a'', JArray [JObject [], JArray []]),
      (''b'', JObject [(''x'', JArray [JNumber 1])]),
      (''c'', JString ''x''),
      (''d'', JObject [(''x'', JNumber 1)]),
      (''b'', JArray [JObject [(''x'', JArray [])]]),
      (''c'', JNumber 1),
      (''d'', JObject [(''y'', JNumber 2)]),
      (''e'', JArray [JObject [(''x'', JNumber 1)]]),
      (''e'', JArray [JArray []]),
      (''e'', JArray [JObject [(''z'', JNumber 2)]]),
      (''a'', JObject []),
      (''b'', JArray [JArray [JNumber 1]])]"

definition duplicate_keys_text :: string where
  "duplicate_keys_text =
     ''{\"a\":[{},[]],\"b\":{\"x\":[1]},\"c\":\"x\",\"d\":{\"x\":1},\"b\":[{\"x\":[]}],\"c\":1,\"d\":{\"y\":2},\"e\":[{\"x\":1}],\"e\":[[]],\"e\":[{\"z\":2}],\"a\":{},\"b\":[[1]]}''"

text \<open>A container that holds the key \<open>x\<close>, and a text with the one member \<open>a\<close>.\<close>

definition holds_x :: "gvalue OrderedMap" where
  "holds_x = \<lparr>keys = [''x''], vals = Some [''x'' \<mapsto> GNum 1], escapeHTML = True\<rparr>"

definition member_a_scan :: "string \<Rightarrow> error + jvalue" where
  "member_a_scan = scan_table [(''{\"a\":1}'', JObject [(''a'', JNumber 1)])]"

text \<open>A text whose one member \<open>a\<close> is a string, which does not fit \<open>int\<close>.\<close>

definition string_a_scan :: "string \<Rightarrow> error + jvalue" where
  "string_a_scan = scan_table [(''{\"a\":\"x\"}'', JObject [(''a'', JString ''x'')])]"

section \<open>The invariant of the data model\<close>

definition order_invariant :: "'v OrderedMap \<Rightarrow> bool" where
  "order_invariant om \<longleftrightarrow> distinct (keys om) \<and> set (keys om) = map_keys (vals om)"


section \<open>MarshalJSON\<close>

text \<open>
  \<open>Encoder.Encode(v)\<close> appends to the buffer the JSON encoding of \<open>v\<close> followed by a
  line feed, or returns the error of the encoding and appends nothing. The encoding of
  a value is the parameter \<open>marshal\<close>, which is given the encoder's escape-HTML setting.
\<close>

definition Encode ::
  "(bool \<Rightarrow> 'a \<Rightarrow> error + string) \<Rightarrow> bool \<Rightarrow> 'a \<Rightarrow> string \<Rightarrow> error + string" where
  "Encode marshal esc v buf =
     (case marshal esc v of Inl err \<Rightarrow> Inl err | Inr enc \<Rightarrow> Inr (buf @ enc @ [CHR 0x0A]))"

text \<open>
  The loop of \<open>MarshalJSON\<close> over \<open>o.keys\<close> from index \<open>i\<close> on, and the function:
  \<open>marshalKey\<close> is the library's encoding of a string, \<open>marshalT\<close> its encoding of a
  value of the element type.
\<close>

fun marshal_entries ::
  "(bool \<Rightarrow> string \<Rightarrow> error + string) \<Rightarrow> (bool \<Rightarrow> 'v \<Rightarrow> error + string) \<Rightarrow>
   ('v::default) OrderedMap \<Rightarrow> nat \<Rightarrow> string list \<Rightarrow> string \<Rightarrow> error + string" where
  "marshal_entries marshalKey marshalT om i [] buf = Inr buf"
| "marshal_entries marshalKey marshalT om i (k # ks) buf =
     (let buf1 = (if i > 0 then buf @ '','' else buf) in
      case Encode marshalKey (escapeHTML om) k buf1 of
        Inl err \<Rightarrow> Inl err
      | Inr buf2 \<Rightarrow>
          (let buf3 = buf2 @ '':'' in
           case Encode marshalT (escapeHTML om) (map_index (vals om) k) buf3 of
             Inl err \<Rightarrow> Inl err
           | Inr buf4 \<Rightarrow> marshal_entries marshalKey marshalT om (i + 1) ks buf4))"

definition MarshalJSON ::
  "(bool \<Rightarrow> string \<Rightarrow> error + string) \<Rightarrow> (bool \<Rightarrow> 'v \<Rightarrow> error + string) \<Rightarrow>
   ('v::default) OrderedMap \<Rightarrow> error + string" where
  "MarshalJSON marshalKey marshalT om =
     (case marshal_entries marshalKey marshalT om 0 (keys om) ''{'' of
        Inl err \<Rightarrow> Inl err
      | Inr buf \<Rightarrow> Inr (buf @ ''}''))"

text \<open>
  The text of an object whose members are given, and the two forms of a member: the
  encoded key, a colon and the encoded value; and the same with a line feed after the
  key and after the value.
\<close>

fun join :: "string \<Rightarrow> string list \<Rightarrow> string" where
  "join sep [] = []"
| "join sep [x] = x"
| "join sep (x # y # ys) = x @ sep @ join sep (y # ys)"

definition object_text :: "string list \<Rightarrow> string" where
  "object_text members = ''{'' @ join '','' members @ ''}''"

definition member_text :: "string \<Rightarrow> string \<Rightarrow> string" where
  "member_text ek ev = ek @ '':'' @ ev"

definition member_lines :: "string \<Rightarrow> string \<Rightarrow> string" where
  "member_lines ek ev = ek @ [CHR 0x0A] @ '':'' @ ev @ [CHR 0x0A]"

section \<open>The library's encoder\<close>

text \<open>
  The encoding of a string: between double quotes, with the double quote and the
  backslash behind a backslash, line feed, carriage return and tab as \<open>\n\<close>, \<open>\r\<close> and
  \<open>\t\<close>, the other control characters as \<open>\u00XX\<close>, and so are \<open><\<close>, \<open>>\<close> and \<open>&\<close> when the
  escape-HTML setting is on. Bytes above 127 are copied: what the library does with
  invalid UTF-8 and with the line separators U+2028 and U+2029 is not modelled.
\<close>

definition hex_digit :: "nat \<Rightarrow> char" where
  "hex_digit n = ''0123456789abcdef'' ! n"

definition html_char :: "char \<Rightarrow> bool" where
  "html_char c \<longleftrightarrow> c = CHR ''<'' \<or> c = CHR ''>'' \<or> c = CHR ''&''"

definition unicode_escape :: "char \<Rightarrow> string" where
  "unicode_escape c =
     [CHR 0x5C, CHR ''u'', CHR ''0'', CHR ''0'',
      hex_digit ((of_char c :: nat) div 16), hex_digit ((of_char c :: nat) mod 16)]"

definition escape_char :: "bool \<Rightarrow> char \<Rightarrow> string" where
  "escape_char esc c =
     (if c = CHR 0x22 \<or> c = CHR 0x5C then [CHR 0x5C, c]
      else if c = CHR 0x0A then [CHR 0x5C, CHR ''n'']
      else if c = CHR 0x0D then [CHR 0x5C, CHR ''r'']
      else if c = CHR 0x09 then [CHR 0x5C, CHR ''t'']
      else if (of_char c :: nat) < 32 \<or> (esc \<and> html_char c) then unicode_escape c
      else [c])"

definition json_string :: "bool \<Rightarrow> string \<Rightarrow> string" where
  "json_string esc s = [CHR 0x22] @ concat (map (escape_char esc) s) @ [CHR 0x22]"

definition marshal_string :: "bool \<Rightarrow> string \<Rightarrow> error + string" where
  "marshal_string esc s = Inr (json_string esc s)"

text \<open>The encoding of an integer, in decimal.\<close>

function digits :: "nat \<Rightarrow> string" where
  "digits n = (if n < 10 then [hex_digit n] else digits (n div 10) @ [hex_digit (n mod 10)])"
  by pat_completeness auto
termination by (relation "measure id") auto

definition decimal :: "int \<Rightarrow> string" where
  "decimal n = (if n < 0 then CHR ''-'' # digits (nat (- n)) else digits (nat n))"

definition marshal_int :: "bool \<Rightarrow> int \<Rightarrow> error + string" where
  "marshal_int esc n = Inr (decimal n)"

text \<open>
  The encoding of a value of type \<open>interface{}\<close>: the elements of a slice between
  brackets, the entries of a map between braces, and \<open>UnsupportedTypeError\<close> for a
  channel, wherever it is nested.
\<close>

fun collect :: "(error + 'a) list \<Rightarrow> error + 'a list" where
  "collect [] = Inr []"
| "collect (Inl e # rs) = Inl e"
| "collect (Inr x # rs) = (case collect rs of Inl e \<Rightarrow> Inl e | Inr xs \<Rightarrow> Inr (x # xs))"

fun marshal_gvalue :: "bool \<Rightarrow> gvalue \<Rightarrow> error + string" where
  "marshal_gvalue esc GNil = Inr ''null''"
| "marshal_gvalue esc (GBool b) = Inr (if b then ''true'' else ''false'')"
| "marshal_gvalue esc (GNum n) = Inr (decimal n)"
| "marshal_gvalue esc (GStr s) = Inr (json_string esc s)"
| "marshal_gvalue esc (GSlice vs) =
     (case collect (map (marshal_gvalue esc) vs) of
        Inl e \<Rightarrow> Inl e
      | Inr ts \<Rightarrow> Inr (''['' @ join '','' ts @ '']''))"
| "marshal_gvalue esc (GMap kvs) =
     (case collect (map (\<lambda>kv. case marshal_gvalue esc (snd kv) of
                                 Inl e \<Rightarrow> Inl e
                               | Inr t \<Rightarrow> Inr (member_text (json_string esc (fst kv)) t)) kvs) of
        Inl e \<Rightarrow> Inl e
      | Inr ts \<Rightarrow> Inr (object_text ts))"
| "marshal_gvalue esc GChan = Inl UnsupportedValue"

text \<open>
  The encoding of a value that has a \<open>MarshalJSON\<close> method, as an ordered container
  has: the library calls the method and copies what it returns through \<open>compact\<close>,
  which drops the white space between the tokens and, when the setting of the encoder
  that is running is on, escapes \<open><\<close>, \<open>>\<close> and \<open>&\<close>. The state of the copy is whether it
  is inside a string, and whether the last character there was a backslash that escapes
  the next one. The texts copied here are those that \<open>MarshalJSON\<close> returns; the error
  of \<open>compact\<close> on a text that is not JSON is not modelled.
\<close>

definition whitespace :: "char \<Rightarrow> bool" where
  "whitespace c \<longleftrightarrow> c = CHR '' '' \<or> c = CHR 0x09 \<or> c = CHR 0x0A \<or> c = CHR 0x0D"

fun compact_loop :: "bool \<Rightarrow> bool \<Rightarrow> bool \<Rightarrow> string \<Rightarrow> string" where
  "compact_loop esc in_string after_backslash [] = []"
| "compact_loop esc in_string after_backslash (c # cs) =
     (if in_string then
        (if esc \<and> html_char c then unicode_escape c else [c])
        @ compact_loop esc (\<not> (c = CHR 0x22 \<and> \<not> after_backslash))
            (c = CHR 0x5C \<and> \<not> after_backslash) cs
      else if whitespace c then compact_loop esc False False cs
      else (if esc \<and> html_char c then unicode_escape c else [c])
        @ compact_loop esc (c = CHR 0x22) False cs)"

definition compact :: "bool \<Rightarrow> string \<Rightarrow> string" where
  "compact esc src = compact_loop esc False False src"

definition marshal_OrderedMap :: "bool \<Rightarrow> gvalue OrderedMap \<Rightarrow> error + string" where
  "marshal_OrderedMap esc inner =
     (case MarshalJSON marshal_string marshal_gvalue inner of
        Inl err \<Rightarrow> Inl err
      | Inr b \<Rightarrow> Inr (compact esc b))"

text \<open>The zero value of the container type, for a container that holds containers.\<close>

instantiation OrderedMap_ext :: (type, default) default
begin
definition default_OrderedMap_ext :: "('a, 'b) OrderedMap_ext" where
  "default_OrderedMap_ext = OrderedMap_ext [] None False default"
instance ..
end

text \<open>
  The characters \<open><\<close>, \<open>>\<close> and \<open>&\<close> of a text, in their order; the strings of a value of
  type \<open>interface{}\<close>, keys of maps included, in the order of the encoding; and the
  strings of a container, its keys included.
\<close>

definition html_chars :: "string \<Rightarrow> string" where
  "html_chars s = filter html_char s"

fun strings_of :: "gvalue \<Rightarrow> string" where
  "strings_of (GStr s) = s"
| "strings_of (GSlice vs) = concat (map strings_of vs)"
| "strings_of (GMap kvs) = concat (map (\<lambda>kv. fst kv @ strings_of (snd kv)) kvs)"
| "strings_of _ = []"

definition container_strings :: "gvalue OrderedMap \<Rightarrow> string" where
  "container_strings om = concat (map (\<lambda>k. k @ strings_of (map_index (vals om) k)) (keys om))"

text \<open>
  The strings of a container of containers that its encoding holds as they are when its
  setting is off: its keys, and the strings of the inner containers whose own setting
  is off.
\<close>

definition nested_strings :: "gvalue OrderedMap OrderedMap \<Rightarrow> string" where
  "nested_strings outer =
     concat (map (\<lambda>k. k @ (if escapeHTML (map_index (vals outer) k) then []
                            else container_strings (map_index (vals outer) k)))
                 (keys outer))"

text \<open>
  The container of the test \<open>TestMarshalJSONNoEscapeHTML\<close>; a container whose setting is
  off and which holds, under \<open>n\<close>, a new container (its setting on) that holds the
  string \<open><\<close>; and the same with a map in the place of the inner container.
\<close>

definition no_escape_test :: "gvalue OrderedMap" where
  "no_escape_test =
     \<lparr>keys = [''specialstring''],
      vals = Some [''specialstring'' \<mapsto> GStr ([CHR 0x5C] @ ''.<>[]{}_-'')],
      escapeHTML = False\<rparr>"

definition holds_less_than :: "gvalue OrderedMap" where
  "holds_less_than = \<lparr>keys = [''s''], vals = Some [''s'' \<mapsto> GStr ''<''], escapeHTML = True\<rparr>"

definition nested_container :: "gvalue OrderedMap OrderedMap" where
  "nested_container =
     \<lparr>keys = [''n''], vals = Some [''n'' \<mapsto> holds_less_than], escapeHTML = False\<rparr>"

definition nested_map :: "gvalue OrderedMap" where
  "nested_map =
     \<lparr>keys = [''n''], vals = Some [''n'' \<mapsto> GMap [(''s'', GStr ''<'')]], escapeHTML = False\<rparr>"



section \<open>Set and Delete\<close>

lemma find_key_None: "find_key key ks i = None \<longleftrightarrow> key \<notin> set ks"
  by (induction ks arbitrary: i) auto

lemma find_key_remove1:
  "find_key key ks i = Some j \<Longrightarrow> i \<le> j \<and> take (j - i) ks @ drop (j - i + 1) ks = remove1 key ks"
proof (induction ks arbitrary: i)
  case Nil
  then show ?case by simp
next
  case (Cons k ks)
  show ?case
  proof (cases "k = key")
    case True
    with Cons.prems show ?thesis by simp
  next
    case False
    with Cons.prems have rec: "find_key key ks (Suc i) = Some j" by simp
    from Cons.IH [OF rec] have le: "Suc i \<le> j"
      and eq: "take (j - Suc i) ks @ drop (j - Suc i + 1) ks = remove1 key ks" by simp_all
    from le have "j - i = Suc (j - Suc i)" by simp
    with False eq le show ?thesis by simp
  qed
qed

lemma removeAll_filter: "removeAll k xs = filter (\<lambda>x. x \<noteq> k) xs"
  by (induction xs) auto

lemma Delete_keys:
  "keys (Delete key om) = (if map_read (vals om) key = None then keys om else remove1 key (keys om))"
proof (cases "map_read (vals om) key")
  case None
  then show ?thesis by (simp add: Delete_def)
next
  case (Some v)
  show ?thesis
  proof (cases "find_key key (keys om) 0")
    case None
    then have "key \<notin> set (keys om)" by (simp add: find_key_None)
    then have "remove1 key (keys om) = keys om" by (simp add: remove1_idem)
    with Some None show ?thesis by (simp add: Delete_def)
  next
    case (Some j)
    from find_key_remove1 [OF Some] have "take j (keys om) @ drop (j + 1) (keys om) = remove1 key (keys om)"
      by simp
    with Some \<open>map_read (vals om) key = Some v\<close> show ?thesis by (simp add: Delete_def)
  qed
qed

lemma Delete_vals:
  "vals (Delete key om) = (if map_read (vals om) key = None then vals om else map_delete (vals om) key)"
  by (cases "map_read (vals om) key") (simp_all add: Delete_def)

lemma Delete_escapeHTML: "escapeHTML (Delete key om) = escapeHTML om"
  by (cases "map_read (vals om) key") (simp_all add: Delete_def)

lemma map_read_delete:
  "map_read (map_delete m key) k = (if k = key then None else map_read m k)"
  by (cases m) (simp_all add: map_read_def map_delete_def)

lemma map_keys_read: "k \<in> map_keys m \<longleftrightarrow> map_read m k \<noteq> None"
  by (cases m) (auto simp: map_keys_def map_read_def)







text \<open>
  C8. In a container whose key order is free of duplicates and names only keys of the
  map, after \<open>Delete k\<close> the key is found neither by \<open>Get\<close> nor in \<open>Keys\<close>: it is gone from
  the key order, whose other keys keep their order, and from the map, whose other
  entries stay. \<open>Delete\<close> of a key the map does not hold returns the container as it was.
\<close>

theorem Delete_removes_key:
  assumes "distinct (keys om)" and "set (keys om) \<subseteq> map_keys (vals om)"
  shows "snd (Get k (Delete k om)) = False
     \<and> k \<notin> set (Keys (Delete k om))
     \<and> Keys (Delete k om) = filter (\<lambda>x. x \<noteq> k) (Keys om)
     \<and> map_read (vals (Delete k om)) k = None
     \<and> (\<forall>j. j \<noteq> k \<longrightarrow> map_read (vals (Delete k om)) j = map_read (vals om) j)
     \<and> (map_read (vals om) k = None \<longrightarrow> Delete k om = om)"
proof -
  have gone: "map_read (vals (Delete k om)) k = None"
    by (simp add: Delete_vals map_read_delete)
  have absent: "map_read (vals om) k = None \<Longrightarrow> k \<notin> set (keys om)"
    using assms(2) by (auto simp: map_keys_read)
  have ks: "keys (Delete k om) = filter (\<lambda>x. x \<noteq> k) (keys om)"
  proof (cases "map_read (vals om) k = None")
    case True
    with absent have "filter (\<lambda>x. x \<noteq> k) (keys om) = keys om" by (auto simp: filter_id_conv)
    with True show ?thesis by (simp add: Delete_keys)
  next
    case False
    then have "keys (Delete k om) = remove1 k (keys om)"
      by (simp only: Delete_keys if_False)
    with assms(1) show ?thesis
      by (simp add: distinct_remove1_removeAll removeAll_filter)
  qed
  have others: "\<forall>j. j \<noteq> k \<longrightarrow> map_read (vals (Delete k om)) j = map_read (vals om) j"
    by (simp add: Delete_vals map_read_delete)
  have noop: "map_read (vals om) k = None \<longrightarrow> Delete k om = om"
    by (simp add: Delete_def)
  from gone ks others noop show ?thesis
    by (simp add: Get_def Keys_def)
qed

theorem Delete_removes_key_witness:
  "distinct (keys example_map)
   \<and> set (keys example_map) \<subseteq> map_keys (vals example_map)
   \<and> snd (Get ''a'' (Delete ''a'' example_map)) = False
   \<and> Keys (Delete ''a'' example_map) = [''b'', ''c'']
   \<and> map_read (vals (Delete ''a'' example_map)) ''c'' = Some 3
   \<and> map_read (vals example_map) ''z'' = None
   \<and> Delete ''z'' example_map = example_map"
proof -
  have d: "distinct (keys example_map)"
    and s: "set (keys example_map) \<subseteq> map_keys (vals example_map)"
    and z: "map_read (vals example_map) ''z'' = None"
    by (simp_all add: example_map_def map_keys_def map_read_def)
  from Delete_removes_key [OF d s, of "''a''"]
  have 1: "snd (Get ''a'' (Delete ''a'' example_map)) = False"
    and 2: "Keys (Delete ''a'' example_map) = [''b'', ''c'']"
    and 3: "map_read (vals (Delete ''a'' example_map)) ''c'' = Some 3"
    by (simp_all add: Keys_def example_map_def map_read_def)
  from Delete_removes_key [OF d s, of "''z''"] z
  have 4: "Delete ''z'' example_map = example_map" by (elim conjE) (rule mp)
  from d s z 1 2 3 4 show ?thesis by (intro conjI)
qed

section \<open>Sort and SortKeys\<close>

lemma length_in_place [simp]: "length (in_place xs ys) = length xs"
  by (simp add: in_place_def)

lemma in_place_same_length: "length ys = length xs \<Longrightarrow> in_place xs ys = ys"
  by (simp add: in_place_def)

lemma fold_write_keys:
  "length ps + n \<le> length ks \<Longrightarrow>
   fold (\<lambda>(i, pair) ks. ks[i := Key pair]) (enumerate n ps) ks
     = take n ks @ map Key ps @ drop (n + length ps) ks"
proof (induction ps arbitrary: n ks)
  case Nil
  then show ?case by simp
next
  case (Cons p ps)
  have "length ps + Suc n \<le> length (ks[n := Key p])" using Cons.prems by simp
  from Cons.IH [OF this]
  have "fold (\<lambda>(i, pair) ks. ks[i := Key pair]) (enumerate (Suc n) ps) (ks[n := Key p])
      = take (Suc n) (ks[n := Key p]) @ map Key ps @ drop (Suc n + length ps) (ks[n := Key p])" .
  moreover have "take (Suc n) (ks[n := Key p]) = take n ks @ [Key p]"
    using Cons.prems by (simp add: take_Suc_conv_app_nth)
  moreover have "drop (Suc n + length ps) (ks[n := Key p]) = drop (n + length (p # ps)) ks"
    by simp
  ultimately show ?case by simp
qed

lemma write_keys_eq: "length ps = length ks \<Longrightarrow> write_keys ps ks = map Key ps"
  using fold_write_keys [of ps 0 ks] by (simp add: write_keys_def)

lemma length_make_pairs [simp]: "length (make_pairs om) = length (keys om)"
  by (simp add: make_pairs_def)

lemma Sort_keys:
  "keys (Sort srt lf om) = map Key (in_place (make_pairs om) (srt lf (make_pairs om)))"
  by (simp add: Sort_def Let_def write_keys_eq)

lemma sorted_wrt_unique:
  "distinct ys \<Longrightarrow> mset ys = mset zs \<Longrightarrow> sorted_wrt R ys \<Longrightarrow> sorted_wrt R zs \<Longrightarrow>
   (\<forall>a\<in>set ys. \<forall>b\<in>set ys. a \<noteq> b \<longrightarrow> \<not> (R a b \<and> R b a)) \<Longrightarrow> ys = zs"
proof (induction ys arbitrary: zs)
  case Nil
  then show ?case by simp
next
  case (Cons y ys)
  from Cons.prems(2) obtain z zs' where zs: "zs = z # zs'" by (cases zs) auto
  have sets: "set (y # ys) = set (z # zs')" using mset_eq_setD [OF Cons.prems(2)] zs by simp
  have "y = z"
  proof (rule ccontr)
    assume ne: "y \<noteq> z"
    with sets have "y \<in> set zs'" and "z \<in> set ys" by auto
    with Cons.prems(3,4) zs have "R z y" and "R y z" by auto
    moreover have "z \<in> set (y # ys)" using \<open>z \<in> set ys\<close> by simp
    ultimately show False using Cons.prems(5) ne by auto
  qed
  with Cons.prems zs have "ys = zs'"
    by (intro Cons.IH) auto
  with \<open>y = z\<close> zs show ?case by simp
qed

lemma mset_insort_by [simp]: "mset (insort_by lf x xs) = add_mset x (mset xs)"
  by (induction xs) auto

lemma mset_foldl_insort_by: "mset (foldl (\<lambda>acc x. insort_by lf x acc) acc xs) = mset acc + mset xs"
  by (induction xs arbitrary: acc) auto

lemma mset_stable_sort_by [simp]: "mset (stable_sort_by lf xs) = mset xs"
  by (simp add: stable_sort_by_def mset_foldl_insort_by)

lemma set_insort_by [simp]: "set (insort_by lf x xs) = insert x (set xs)"
  by (induction xs) auto

lemma strict_linear_on_asym: "strict_linear_on lf A \<Longrightarrow> a \<in> A \<Longrightarrow> b \<in> A \<Longrightarrow> lf a b \<Longrightarrow> \<not> lf b a"
  unfolding strict_linear_on_def by blast

lemma strict_linear_on_trans:
  "strict_linear_on lf A \<Longrightarrow> a \<in> A \<Longrightarrow> b \<in> A \<Longrightarrow> c \<in> A \<Longrightarrow> lf a b \<Longrightarrow> lf b c \<Longrightarrow> lf a c"
  unfolding strict_linear_on_def by blast

lemma strict_linear_on_total:
  "strict_linear_on lf A \<Longrightarrow> a \<in> A \<Longrightarrow> b \<in> A \<Longrightarrow> a \<noteq> b \<Longrightarrow> lf a b \<or> lf b a"
  unfolding strict_linear_on_def by blast

lemma sorted_insort_by:
  assumes "strict_linear_on lf A" "x \<in> A" "set xs \<subseteq> A" "sorted_wrt (\<lambda>a b. \<not> lf b a) xs"
  shows "sorted_wrt (\<lambda>a b. \<not> lf b a) (insort_by lf x xs)"
  using assms(3,4)
proof (induction xs)
  case Nil
  then show ?case by simp
next
  case (Cons y ys)
  show ?case
  proof (cases "lf x y")
    case True
    have yA: "y \<in> A" using Cons.prems(1) by simp
    have "\<not> lf y x" using strict_linear_on_asym [OF assms(1,2) yA True] .
    moreover have "\<forall>b\<in>set ys. \<not> lf b x"
    proof
      fix b assume b: "b \<in> set ys"
      with Cons.prems have "\<not> lf b y" by simp
      show "\<not> lf b x"
      proof
        assume "lf b x"
        moreover have "b \<in> A" using Cons.prems(1) b by auto
        ultimately have "lf b y" using strict_linear_on_trans [OF assms(1) _ assms(2) yA _ True] by blast
        with \<open>\<not> lf b y\<close> show False ..
      qed
    qed
    ultimately show ?thesis using True Cons.prems by simp
  next
    case False
    with Cons show ?thesis by auto
  qed
qed

lemma sorted_foldl_insort_by:
  assumes "strict_linear_on lf A"
  shows "set acc \<subseteq> A \<Longrightarrow> set xs \<subseteq> A \<Longrightarrow> sorted_wrt (\<lambda>a b. \<not> lf b a) acc \<Longrightarrow>
    sorted_wrt (\<lambda>a b. \<not> lf b a) (foldl (\<lambda>acc x. insort_by lf x acc) acc xs)"
proof (induction xs arbitrary: acc)
  case Nil
  then show ?case by simp
next
  case (Cons x xs)
  have "sorted_wrt (\<lambda>a b. \<not> lf b a) (insort_by lf x acc)"
    using assms Cons.prems by (intro sorted_insort_by [where A = A]) auto
  moreover have "set (insort_by lf x acc) \<subseteq> A" using Cons.prems by simp
  ultimately show ?case using Cons.prems Cons.IH by simp
qed

lemma stable_sort_by_sorts:
  "strict_linear_on lf (set xs) \<Longrightarrow> sorts_by lf xs (stable_sort_by lf xs)"
  using sorted_foldl_insort_by [of lf "set xs" "[]" xs]
  by (simp add: sorts_by_def stable_sort_by_def mset_foldl_insort_by)

lemma sorts_by_unique:
  assumes "distinct xs" "strict_linear_on lf (set xs)" "sorts_by lf xs ys" "sorts_by lf xs zs"
  shows "ys = zs"
proof -
  have m: "mset ys = mset zs" using assms(3,4) by (simp add: sorts_by_def)
  have my: "mset ys = mset xs" using assms(3) by (simp add: sorts_by_def)
  have s: "set ys = set xs" using my by (rule mset_eq_setD)
  have d: "distinct ys" using assms(1) mset_eq_imp_distinct_iff [OF my] by simp
  have "\<forall>a\<in>set ys. \<forall>b\<in>set ys. a \<noteq> b \<longrightarrow> \<not> (\<not> lf b a \<and> \<not> lf a b)"
    using strict_linear_on_total [OF assms(2)] s by blast
  with d m assms(3,4) show ?thesis
    by (intro sorted_wrt_unique [where R = "\<lambda>a b. \<not> lf b a"]) (auto simp: sorts_by_def)
qed


lemma make_pairs_example:
  "make_pairs example_map = [\<lparr>Key = ''b'', Value = 2\<rparr>, \<lparr>Key = ''a'', Value = 1\<rparr>, \<lparr>Key = ''c'', Value = 3\<rparr>]"
  by (simp add: make_pairs_def example_map_def map_index_def map_read_def)

lemma make_pairs_tie:
  "make_pairs tie_map = [\<lparr>Key = ''a'', Value = 2\<rparr>, \<lparr>Key = ''b'', Value = 1\<rparr>, \<lparr>Key = ''c'', Value = 1\<rparr>,
     \<lparr>Key = ''d'', Value = 1\<rparr>, \<lparr>Key = ''e'', Value = 1\<rparr>, \<lparr>Key = ''f'', Value = 1\<rparr>, \<lparr>Key = ''g'', Value = 1\<rparr>]"
  by (simp add: make_pairs_def tie_map_def map_index_def map_read_def)

lemma sort_tie:
  "sort_small_go118 by_value (make_pairs tie_map) =
     [\<lparr>Key = ''g'', Value = 1\<rparr>, \<lparr>Key = ''b'', Value = 1\<rparr>, \<lparr>Key = ''c'', Value = 1\<rparr>,
     \<lparr>Key = ''d'', Value = 1\<rparr>, \<lparr>Key = ''e'', Value = 1\<rparr>, \<lparr>Key = ''f'', Value = 1\<rparr>, \<lparr>Key = ''a'', Value = 2\<rparr>]"
  unfolding make_pairs_tie
  by (simp add: sort_small_go118_def shell_pass_def insertionSort_def Swap_def by_value_def upt_rec numeral_nat)

lemma stable_tie:
  "stable_sort_by by_value (make_pairs tie_map) =
     [\<lparr>Key = ''b'', Value = 1\<rparr>, \<lparr>Key = ''c'', Value = 1\<rparr>,
     \<lparr>Key = ''d'', Value = 1\<rparr>, \<lparr>Key = ''e'', Value = 1\<rparr>, \<lparr>Key = ''f'', Value = 1\<rparr>, \<lparr>Key = ''g'', Value = 1\<rparr>, \<lparr>Key = ''a'', Value = 2\<rparr>]"
  unfolding make_pairs_tie
  by (simp add: stable_sort_by_def by_value_def)

text \<open>
  C9 as stated fails: "equivalent to a stable sort over the pairs" is not what \<open>Sort\<close>
  does with every \<open>sort.Sort\<close>. With the one of Go 1.18 and the comparator "ascending by
  value", the key \<open>g\<close> moves in front of the five keys \<open>b\<close> to \<open>f\<close> whose values equal
  its own, where a stable sort leaves it behind them.
\<close>

theorem Sort_unstable_counterexample:
  "sorts_by by_value (make_pairs tie_map) (sort_small_go118 by_value (make_pairs tie_map))
   \<and> Keys (Sort sort_small_go118 by_value tie_map) = [''g'', ''b'', ''c'', ''d'', ''e'', ''f'', ''a'']
   \<and> map Key (stable_sort_by by_value (make_pairs tie_map)) = [''b'', ''c'', ''d'', ''e'', ''f'', ''g'', ''a'']
   \<and> Keys (Sort sort_small_go118 by_value tie_map) \<noteq> map Key (stable_sort_by by_value (make_pairs tie_map))"
proof -
  have 1: "sorts_by by_value (make_pairs tie_map) (sort_small_go118 by_value (make_pairs tie_map))"
    unfolding sort_tie unfolding make_pairs_tie by (simp add: sorts_by_def by_value_def)
  have 2: "Keys (Sort sort_small_go118 by_value tie_map) = [''g'', ''b'', ''c'', ''d'', ''e'', ''f'', ''a'']"
    unfolding Keys_def Sort_keys sort_tie by (simp add: make_pairs_tie in_place_def)
  have 3: "map Key (stable_sort_by by_value (make_pairs tie_map)) = [''b'', ''c'', ''d'', ''e'', ''f'', ''g'', ''a'']"
    unfolding stable_tie by simp
  have 4: "Keys (Sort sort_small_go118 by_value tie_map) \<noteq> map Key (stable_sort_by by_value (make_pairs tie_map))"
    unfolding 2 3 by simp
  from 1 2 3 4 show ?thesis by (intro conjI)
qed


lemma Sort_frame: "vals (Sort srt lf om) = vals om \<and> escapeHTML (Sort srt lf om) = escapeHTML om"
  by (simp add: Sort_def Let_def)

lemma Sort_keys_contract:
  assumes "mset (srt lf (make_pairs om)) = mset (make_pairs om)"
  shows "keys (Sort srt lf om) = map Key (srt lf (make_pairs om))"
proof -
  have "length (srt lf (make_pairs om)) = length (make_pairs om)"
    using assms by (rule mset_eq_length)
  then show ?thesis by (simp add: Sort_keys in_place_same_length)
qed

lemma map_Key_make_pairs [simp]: "map Key (make_pairs om) = keys om"
  by (simp add: make_pairs_def comp_def)

lemma distinct_make_pairs: "distinct (keys om) \<Longrightarrow> distinct (make_pairs om)"
  using distinct_map [of Key "make_pairs om"] by simp

lemma Sort_keys_stable:
  assumes "distinct (keys om)" "strict_linear_on lf (set (make_pairs om))"
    "sorts_by lf (make_pairs om) (srt lf (make_pairs om))"
  shows "keys (Sort srt lf om) = map Key (stable_sort_by lf (make_pairs om))"
proof -
  have "srt lf (make_pairs om) = stable_sort_by lf (make_pairs om)"
    using distinct_make_pairs [OF assms(1)] assms(2,3) stable_sort_by_sorts [OF assms(2)]
    by (rule sorts_by_unique)
  moreover have "mset (srt lf (make_pairs om)) = mset (make_pairs om)"
    using assms(3) by (simp add: sorts_by_def)
  ultimately show ?thesis by (simp add: Sort_keys_contract)
qed

lemma strict_linear_example: "strict_linear_on by_value_descending (set (make_pairs example_map))"
  by (simp add: make_pairs_example strict_linear_on_def by_value_descending_def)

lemma stable_example:
  "map Key (stable_sort_by by_value_descending (make_pairs example_map)) = [''c'', ''b'', ''a'']"
  by (simp add: make_pairs_example stable_sort_by_def by_value_descending_def)

lemma SortKeys_keys:
  "mset (sortFunc (keys om)) = mset (keys om) \<Longrightarrow> keys (SortKeys sortFunc om) = sortFunc (keys om)"
  using mset_eq_length [of "sortFunc (keys om)" "keys om"]
  by (simp add: SortKeys_def in_place_same_length)

text \<open>
  C9, amended. \<open>Sort\<close> builds the pairs of the current keys, sorts them with the
  comparator through \<open>sort.Sort\<close> and rewrites the key order from the sorted pairs; the
  map of values is not touched, nor is it by \<open>SortKeys\<close>. When \<open>sort.Sort\<close> keeps its
  contract, the new key order is a rearrangement of the old one, and it is the order a
  stable sort gives whenever the comparator is a strict linear order on the pairs, that
  is, never leaves two different pairs unordered (stability itself is not promised). On
  \<open>{b:2, a:1, c:3}\<close>, \<open>Sort\<close> with "descending numeric value" gives \<open>c, b, a\<close>, and
  \<open>SortKeys\<close> with a function that sorts the keys lexicographically gives \<open>a, b, c\<close>.
\<close>

theorem Sort_rewrites_key_order:
  fixes om :: "('v::default) OrderedMap"
    and srt :: "('v Pair \<Rightarrow> 'v Pair \<Rightarrow> bool) \<Rightarrow> 'v Pair list \<Rightarrow> 'v Pair list"
    and isrt :: "(int Pair \<Rightarrow> int Pair \<Rightarrow> bool) \<Rightarrow> int Pair list \<Rightarrow> int Pair list"
  shows
  "vals (Sort srt lf om) = vals om
   \<and> vals (SortKeys sortFunc om) = vals om
   \<and> Keys (Sort srt lf om) = map Key (in_place (make_pairs om) (srt lf (make_pairs om)))
   \<and> (sorts_by lf (make_pairs om) (srt lf (make_pairs om)) \<longrightarrow>
        Keys (Sort srt lf om) = map Key (srt lf (make_pairs om))
        \<and> mset (Keys (Sort srt lf om)) = mset (Keys om))
   \<and> (distinct (keys om) \<and> strict_linear_on lf (set (make_pairs om))
        \<and> sorts_by lf (make_pairs om) (srt lf (make_pairs om)) \<longrightarrow>
        Keys (Sort srt lf om) = map Key (stable_sort_by lf (make_pairs om)))
   \<and> (sorts_by by_value_descending (make_pairs example_map)
          (isrt by_value_descending (make_pairs example_map)) \<longrightarrow>
        Keys (Sort isrt by_value_descending example_map) = [''c'', ''b'', ''a''])
   \<and> (mset (sortFunc (keys example_map)) = mset (keys example_map)
        \<and> sorted (sortFunc (keys example_map)) \<longrightarrow>
        Keys (SortKeys sortFunc example_map) = [''a'', ''b'', ''c''])"
proof (intro conjI impI)
  show "vals (Sort srt lf om) = vals om" by (simp add: Sort_frame)
  show "vals (SortKeys sortFunc om) = vals om" by (simp add: SortKeys_def)
  show "Keys (Sort srt lf om) = map Key (in_place (make_pairs om) (srt lf (make_pairs om)))"
    by (simp add: Keys_def Sort_keys)
next
  assume a: "sorts_by lf (make_pairs om) (srt lf (make_pairs om))"
  then have m: "mset (srt lf (make_pairs om)) = mset (make_pairs om)" by (simp add: sorts_by_def)
  show k: "Keys (Sort srt lf om) = map Key (srt lf (make_pairs om))"
    using Sort_keys_contract [of srt lf om] m by (simp add: Keys_def)
  have "mset (map Key (srt lf (make_pairs om))) = mset (map Key (make_pairs om))"
    using m by (metis mset_map)
  then show "mset (Keys (Sort srt lf om)) = mset (Keys om)"
    using k by (simp add: Keys_def)
next
  assume "distinct (keys om) \<and> strict_linear_on lf (set (make_pairs om))
    \<and> sorts_by lf (make_pairs om) (srt lf (make_pairs om))"
  then show "Keys (Sort srt lf om) = map Key (stable_sort_by lf (make_pairs om))"
    by (simp add: Keys_def Sort_keys_stable)
next
  assume a: "sorts_by by_value_descending (make_pairs example_map)
     (isrt by_value_descending (make_pairs example_map))"
  have "distinct (keys example_map)" by (simp add: example_map_def)
  from Sort_keys_stable [of example_map by_value_descending isrt, OF this strict_linear_example a]
  show "Keys (Sort isrt by_value_descending example_map) = [''c'', ''b'', ''a'']"
    by (simp add: Keys_def stable_example)
next
  assume a: "mset (sortFunc (keys example_map)) = mset (keys example_map)
     \<and> sorted (sortFunc (keys example_map))"
  then have "sort (keys example_map) = sortFunc (keys example_map)"
    by (intro properties_for_sort) simp_all
  moreover have "sort (keys example_map) = [''a'', ''b'', ''c'']" by (simp add: example_map_def)
  ultimately show "Keys (SortKeys sortFunc example_map) = [''a'', ''b'', ''c'']"
    using a by (simp add: Keys_def SortKeys_keys)
qed

lemma sort_example:
  "sort_small_go118 by_value_descending (make_pairs example_map) =
     [\<lparr>Key = ''c'', Value = 3\<rparr>, \<lparr>Key = ''b'', Value = 2\<rparr>, \<lparr>Key = ''a'', Value = 1\<rparr>]"
  unfolding make_pairs_example
  by (simp add: sort_small_go118_def shell_pass_def insertionSort_def Swap_def by_value_descending_def upt_rec numeral_nat)

theorem Sort_rewrites_key_order_witness:
  "sorts_by by_value_descending (make_pairs example_map)
      (sort_small_go118 by_value_descending (make_pairs example_map))
   \<and> distinct (keys example_map)
   \<and> strict_linear_on by_value_descending (set (make_pairs example_map))
   \<and> Keys (Sort sort_small_go118 by_value_descending example_map) = [''c'', ''b'', ''a'']
   \<and> Keys (Sort sort_small_go118 by_value_descending example_map)
       = map Key (stable_sort_by by_value_descending (make_pairs example_map))
   \<and> mset (Keys (Sort sort_small_go118 by_value_descending example_map)) = mset (Keys example_map)
   \<and> mset (sort (keys example_map)) = mset (keys example_map)
   \<and> sorted (sort (keys example_map))
   \<and> Keys (SortKeys sort example_map) = [''a'', ''b'', ''c'']"
proof -
  have s: "sorts_by by_value_descending (make_pairs example_map)
      (sort_small_go118 by_value_descending (make_pairs example_map))"
    unfolding sort_example unfolding make_pairs_example
    by (simp add: sorts_by_def by_value_descending_def)
  have d: "distinct (keys example_map)" by (simp add: example_map_def)
  note l = strict_linear_example
  have m: "mset (sort (keys example_map)) = mset (keys example_map)" by simp
  have o: "sorted (sort (keys example_map))" by simp
  note t = Sort_rewrites_key_order [of sort_small_go118 by_value_descending example_map sort sort_small_go118]
  from t s have 1: "Keys (Sort sort_small_go118 by_value_descending example_map) = [''c'', ''b'', ''a'']"
    by (elim conjE) (erule mp)
  from t d l s have 2: "Keys (Sort sort_small_go118 by_value_descending example_map)
       = map Key (stable_sort_by by_value_descending (make_pairs example_map))"
    by (elim conjE) (erule mp, intro conjI)
  from t s have 3: "mset (Keys (Sort sort_small_go118 by_value_descending example_map)) = mset (Keys example_map)"
    by (elim conjE) (drule (1) mp, elim conjE)
  from t m o have 4: "Keys (SortKeys sort example_map) = [''a'', ''b'', ''c'']"
    by (elim conjE) (erule mp, intro conjI)
  from s d l 1 2 3 m o 4 show ?thesis by (intro conjI)
qed

section \<open>The key order that decoding rebuilds\<close>

lemma move_to_end_member:
  assumes "key \<in> set ks"
  shows "move_to_end key ks = Inr (remove1 key ks @ [key])"
proof -
  from assms obtain j where j: "find_key key ks 0 = Some j"
    using find_key_None [of key ks 0] by (cases "find_key key ks 0") auto
  from find_key_remove1 [OF j] have r: "take j ks @ drop (j + 1) ks = remove1 key ks" by simp
  from assms have ne: "ks \<noteq> []" by auto
  then have l: "drop (length ks - 1) ks = [last ks]"
    by (metis append_butlast_last_id append_eq_conv_conj length_butlast)
  let ?ks1 = "take j ks @ drop (j + 1) ks @ drop (length ks - 1) ks"
  have k1: "?ks1 = remove1 key ks @ [last ks]" using r l by (simp flip: append_assoc)
  then have "?ks1[length ?ks1 - 1 := key] = remove1 key ks @ [key]"
    by (simp only: k1) simp
  moreover have "?ks1 \<noteq> []" using k1 by simp
  ultimately show ?thesis using j by (simp add: move_to_end_def Let_def)
qed

lemma set_remove1_insert: "k \<in> set ks \<Longrightarrow> insert k (set (remove1 k ks)) = set ks"
  by (induction ks) auto

lemma set_reposition [simp]: "set (reposition k ks) = insert k (set ks)"
  by (simp add: reposition_def set_remove1_insert insert_absorb)

lemma note_key_reposition:
  "hasKey = set ks \<Longrightarrow> note_key key hasKey ks = Inr (set (reposition key ks), reposition key ks)"
  by (simp add: note_key_def move_to_end_member insert_absorb) (simp add: reposition_def)

lemma Token_Cons [simp]:
  "Token \<lparr>tokens = t # ts, tail_error = te\<rparr> = (Inr t, \<lparr>tokens = ts, tail_error = te\<rparr>)"
  by (simp add: Token_def)

lemma Token_Nil [simp]:
  "Token \<lparr>tokens = [], tail_error = te\<rparr> = (Inl te, \<lparr>tokens = [], tail_error = te\<rparr>)"
  by (simp add: Token_def)


lemma scalar_tokens:
  "scalar v \<Longrightarrow> \<exists>t. tokens_of v = [t] \<and> t \<noteq> Delim CHR ''{'' \<and> t \<noteq> Delim CHR ''['' \<and> t \<noteq> Delim CHR '']''"
  by (cases v) (simp_all add: scalar_def)


lemma slice_step_close:
  "decodeSlice_loop \<lparr>tokens = Delim CHR '']'' # rest, tail_error = te\<rparr> s esc index
     = (None, \<lparr>tokens = rest, tail_error = te\<rparr>)"
  by (subst decodeSlice_loop.simps) simp

lemma slice_step_scalar:
  "t \<noteq> Delim CHR ''{'' \<Longrightarrow> t \<noteq> Delim CHR ''['' \<Longrightarrow> t \<noteq> Delim CHR '']'' \<Longrightarrow>
   decodeSlice_loop \<lparr>tokens = t # after, tail_error = te\<rparr> s esc index
     = decodeSlice_loop \<lparr>tokens = after, tail_error = te\<rparr> s esc (index + 1)"
  by (subst decodeSlice_loop.simps) simp

lemma slice_step_object:
  "decodeOrderedMap_loop \<lparr>tokens = after, tail_error = te\<rparr> {} (zero_OrderedMap :: 'a OrderedMap) = (None, dec2, om2) \<Longrightarrow>
   decodeSlice_loop \<lparr>tokens = Delim CHR ''{'' # after, tail_error = te\<rparr> (s :: 'a list) esc index
     = decodeSlice_loop dec2 s esc (index + 1)"
  by (subst decodeSlice_loop.simps) simp

lemma slice_step_array:
  "decodeSlice_loop \<lparr>tokens = after, tail_error = te\<rparr> ([] :: 'a list) esc 0 = (None, dec2) \<Longrightarrow>
   decodeSlice_loop \<lparr>tokens = Delim CHR ''['' # after, tail_error = te\<rparr> (s :: 'a list) esc index
     = decodeSlice_loop dec2 s esc (index + 1)"
  by (subst decodeSlice_loop.simps) simp

lemma map_step_close:
  "decodeOrderedMap_loop \<lparr>tokens = Delim CHR ''}'' # rest, tail_error = te\<rparr> hasKey om
     = (None, \<lparr>tokens = rest, tail_error = te\<rparr>, om)"
  by (subst decodeOrderedMap_loop.simps) simp

lemma map_step_scalar:
  "note_key key hasKey (keys om) = Inr (hasKey1, ks) \<Longrightarrow>
   t \<noteq> Delim CHR ''{'' \<Longrightarrow> t \<noteq> Delim CHR ''['' \<Longrightarrow>
   decodeOrderedMap_loop \<lparr>tokens = TString key # t # after, tail_error = te\<rparr> hasKey om
     = decodeOrderedMap_loop \<lparr>tokens = after, tail_error = te\<rparr> hasKey1 (om\<lparr>keys := ks\<rparr>)"
  by (subst decodeOrderedMap_loop.simps) simp

lemma map_step_object:
  "note_key key hasKey (keys om) = Inr (hasKey1, ks) \<Longrightarrow>
   decodeOrderedMap_loop \<lparr>tokens = after, tail_error = te\<rparr> {} (zero_OrderedMap :: 'a OrderedMap) = (None, dec3, om3) \<Longrightarrow>
   decodeOrderedMap_loop \<lparr>tokens = TString key # Delim CHR ''{'' # after, tail_error = te\<rparr> hasKey (om :: 'a OrderedMap)
     = decodeOrderedMap_loop dec3 hasKey1 (om\<lparr>keys := ks\<rparr>)"
  by (subst decodeOrderedMap_loop.simps) simp

lemma map_step_array:
  "note_key key hasKey (keys om) = Inr (hasKey1, ks) \<Longrightarrow>
   decodeSlice_loop \<lparr>tokens = after, tail_error = te\<rparr> ([] :: 'a list) (escapeHTML om) 0 = (None, dec3) \<Longrightarrow>
   decodeOrderedMap_loop \<lparr>tokens = TString key # Delim CHR ''['' # after, tail_error = te\<rparr> hasKey (om :: 'a OrderedMap)
     = decodeOrderedMap_loop dec3 hasKey1 (om\<lparr>keys := ks\<rparr>)"
  by (subst decodeOrderedMap_loop.simps) simp


lemma value_skipped:
  "(\<forall>ms. v = JObject ms \<longrightarrow>
      (\<forall>hasKey (om :: 'a OrderedMap) rest te. hasKey = set (keys om) \<longrightarrow>
        decodeOrderedMap_loop \<lparr>tokens = member_tokens ms @ Delim CHR ''}'' # rest, tail_error = te\<rparr> hasKey om
          = (None, \<lparr>tokens = rest, tail_error = te\<rparr>,
             om\<lparr>keys := foldl (\<lambda>ord k. reposition k ord) (keys om) (map fst ms)\<rparr>)))
   \<and> (\<forall>vs. v = JArray vs \<longrightarrow>
      (\<forall>(s :: 'a list) esc index rest te.
        decodeSlice_loop \<lparr>tokens = element_tokens vs @ Delim CHR '']'' # rest, tail_error = te\<rparr> s esc index
          = (None, \<lparr>tokens = rest, tail_error = te\<rparr>)))"
proof (induction v)
  case (JArray vs)
  have "decodeSlice_loop \<lparr>tokens = element_tokens ws @ Delim CHR '']'' # rest, tail_error = te\<rparr> s esc index
          = (None, \<lparr>tokens = rest, tail_error = te\<rparr>)"
    if "set ws \<subseteq> set vs" for ws and s :: "'a list" and esc index rest te
    using that
  proof (induction ws arbitrary: index)
    case Nil
    show ?case by (simp add: element_tokens_def slice_step_close)
  next
    case (Cons w ws)
    have w: "w \<in> set vs" using Cons.prems by simp
    let ?after = "element_tokens ws @ Delim CHR '']'' # rest"
    have rec: "decodeSlice_loop \<lparr>tokens = ?after, tail_error = te\<rparr> s esc (index + 1)
          = (None, \<lparr>tokens = rest, tail_error = te\<rparr>)"
      using Cons.IH [of "index + 1"] Cons.prems by simp
    have split: "element_tokens (w # ws) @ Delim CHR '']'' # rest = tokens_of w @ ?after"
      by (simp add: element_tokens_def)
    show ?case
    proof (cases "scalar w")
      case True
      from scalar_tokens [OF this] obtain t where "tokens_of w = [t]"
        and "t \<noteq> Delim CHR ''{''" "t \<noteq> Delim CHR ''[''" "t \<noteq> Delim CHR '']''" by blast
      then show ?thesis unfolding split using rec by (simp add: slice_step_scalar)
    next
      case False
      then consider (arr) us where "w = JArray us" | (obj) ms where "w = JObject ms"
        by (cases w) (simp_all add: scalar_def)
      then show ?thesis
      proof cases
        case arr
        have inner: "decodeSlice_loop \<lparr>tokens = element_tokens us @ Delim CHR '']'' # ?after, tail_error = te\<rparr> ([] :: 'a list) esc 0
            = (None, \<lparr>tokens = ?after, tail_error = te\<rparr>)"
          by (rule JArray.IH [OF w, THEN conjunct2, rule_format, OF arr])
        have "tokens_of w @ ?after = Delim CHR ''['' # element_tokens us @ Delim CHR '']'' # ?after"
          using arr by (simp add: element_tokens_def)
        then show ?thesis unfolding split using slice_step_array [OF inner, of s index] rec by simp
      next
        case obj
        have z: "{} = set (keys (zero_OrderedMap :: 'a OrderedMap))" by (simp add: zero_OrderedMap_def)
        have "decodeOrderedMap_loop \<lparr>tokens = member_tokens ms @ Delim CHR ''}'' # ?after, tail_error = te\<rparr> {} (zero_OrderedMap :: 'a OrderedMap)
            = (None, \<lparr>tokens = ?after, tail_error = te\<rparr>,
               zero_OrderedMap\<lparr>keys := foldl (\<lambda>ord k. reposition k ord) (keys (zero_OrderedMap :: 'a OrderedMap)) (map fst ms)\<rparr>)"
          by (rule JArray.IH [OF w, THEN conjunct1, rule_format, OF obj z])
        from slice_step_object [OF this, of s esc index]
        have "decodeSlice_loop \<lparr>tokens = Delim CHR ''{'' # member_tokens ms @ Delim CHR ''}'' # ?after, tail_error = te\<rparr> s esc index
            = (None, \<lparr>tokens = rest, tail_error = te\<rparr>)"
          using rec by simp
        moreover have "tokens_of w @ ?after = Delim CHR ''{'' # member_tokens ms @ Delim CHR ''}'' # ?after"
          using obj by (simp add: member_tokens_def)
        ultimately show ?thesis unfolding split by simp
      qed
    qed
  qed
  then show ?case by simp
next
  case (JObject ms)
  have "decodeOrderedMap_loop \<lparr>tokens = member_tokens ns @ Delim CHR ''}'' # rest, tail_error = te\<rparr> hasKey om
          = (None, \<lparr>tokens = rest, tail_error = te\<rparr>,
             om\<lparr>keys := foldl (\<lambda>ord k. reposition k ord) (keys om) (map fst ns)\<rparr>)"
    if "set ns \<subseteq> set ms" "hasKey = set (keys om)" for ns hasKey and om :: "'a OrderedMap" and rest te
    using that
  proof (induction ns arbitrary: hasKey om)
    case Nil
    show ?case by (simp add: member_tokens_def map_step_close)
  next
    case (Cons n ns)
    obtain key w where n: "n = (key, w)" by (cases n)
    have w: "n \<in> set ms" "w \<in> Basic_BNFs.snds n" using Cons.prems(1) n by simp_all
    let ?after = "member_tokens ns @ Delim CHR ''}'' # rest"
    let ?ks = "reposition key (keys om)"
    let ?om1 = "om\<lparr>keys := ?ks\<rparr>"
    have nk: "note_key key hasKey (keys om) = Inr (set ?ks, ?ks)"
      using Cons.prems(2) by (rule note_key_reposition)
    have rec: "decodeOrderedMap_loop \<lparr>tokens = ?after, tail_error = te\<rparr> (set ?ks) ?om1
          = (None, \<lparr>tokens = rest, tail_error = te\<rparr>,
             om\<lparr>keys := foldl (\<lambda>ord k. reposition k ord) (keys om) (map fst (n # ns))\<rparr>)"
      using Cons.IH [of "set ?ks" ?om1] Cons.prems(1) n by simp
    have split: "member_tokens (n # ns) @ Delim CHR ''}'' # rest = TString key # tokens_of w @ ?after"
      using n by (simp add: member_tokens_def)
    show ?case
    proof (cases "scalar w")
      case True
      from scalar_tokens [OF this] obtain t where "tokens_of w = [t]"
        and "t \<noteq> Delim CHR ''{''" "t \<noteq> Delim CHR ''[''" "t \<noteq> Delim CHR '']''" by blast
      then show ?thesis unfolding split using rec map_step_scalar [OF nk, of t ?after te] by simp
    next
      case False
      then consider (arr) us where "w = JArray us" | (obj) ms' where "w = JObject ms'"
        by (cases w) (simp_all add: scalar_def)
      then show ?thesis
      proof cases
        case arr
        have inner: "decodeSlice_loop \<lparr>tokens = element_tokens us @ Delim CHR '']'' # ?after, tail_error = te\<rparr> ([] :: 'a list) (escapeHTML om) 0
            = (None, \<lparr>tokens = ?after, tail_error = te\<rparr>)"
          by (rule JObject.IH [OF w, THEN conjunct2, rule_format, OF arr])
        have "tokens_of w @ ?after = Delim CHR ''['' # element_tokens us @ Delim CHR '']'' # ?after"
          using arr by (simp add: element_tokens_def)
        then show ?thesis unfolding split using map_step_array [OF nk inner] rec by simp
      next
        case obj
        have z: "{} = set (keys (zero_OrderedMap :: 'a OrderedMap))" by (simp add: zero_OrderedMap_def)
        have inner: "decodeOrderedMap_loop \<lparr>tokens = member_tokens ms' @ Delim CHR ''}'' # ?after, tail_error = te\<rparr> {} (zero_OrderedMap :: 'a OrderedMap)
            = (None, \<lparr>tokens = ?after, tail_error = te\<rparr>,
               zero_OrderedMap\<lparr>keys := foldl (\<lambda>ord k. reposition k ord) (keys (zero_OrderedMap :: 'a OrderedMap)) (map fst ms')\<rparr>)"
          by (rule JObject.IH [OF w, THEN conjunct1, rule_format, OF obj z])
        have "tokens_of w @ ?after = Delim CHR ''{'' # member_tokens ms' @ Delim CHR ''}'' # ?after"
          using obj by (simp add: member_tokens_def)
        then show ?thesis unfolding split using map_step_object [OF nk inner] rec by simp
      qed
    qed
  qed
  then show ?case by simp
qed simp_all


lemma remdups_remove1_append:
  "k \<in> set acc \<Longrightarrow> remdups (remove1 k acc @ k # ks) = remdups (acc @ k # ks)"
proof (induction acc)
  case Nil
  then show ?case by simp
next
  case (Cons a acc)
  show ?case
  proof (cases "a = k")
    case True
    then show ?thesis by simp
  next
    case False
    with Cons.prems have k: "k \<in> set acc" by simp
    have "set (remove1 k acc @ k # ks) = set (acc @ k # ks)"
      using set_remove1_insert [OF k] by auto
    with False Cons.IH [OF k] show ?thesis by simp
  qed
qed

lemma reposition_remdups:
  "distinct acc \<Longrightarrow> reposition k acc = remdups (acc @ [k])"
proof -
  assume d: "distinct acc"
  show ?thesis
  proof (cases "k \<in> set acc")
    case True
    have "distinct (remove1 k acc @ [k])" using d by simp
    then have "remove1 k acc @ [k] = remdups (remove1 k acc @ [k])" by (simp only: distinct_remdups_id)
    also have "\<dots> = remdups (acc @ [k])" using True by (rule remdups_remove1_append)
    finally show ?thesis using True by (simp add: reposition_def)
  next
    case False
    with d have "distinct (acc @ [k])" by simp
    then have "remdups (acc @ [k]) = acc @ [k]" by (rule distinct_remdups_id)
    moreover have "reposition k acc = acc @ [k]" using False by (simp add: reposition_def)
    ultimately show ?thesis by (simp only:)
  qed
qed

lemma remdups_append_remdups: "remdups (remdups xs @ ys) = remdups (xs @ ys)"
  by (induction xs) auto

lemma foldl_reposition_remdups:
  "distinct acc \<Longrightarrow> foldl (\<lambda>ord k. reposition k ord) acc ks = remdups (acc @ ks)"
proof (induction ks arbitrary: acc)
  case Nil
  then show ?case by (simp add: distinct_remdups_id)
next
  case (Cons k ks)
  have r: "reposition k acc = remdups (acc @ [k])" using Cons.prems by (rule reposition_remdups)
  then have "distinct (reposition k acc)" by simp
  from Cons.IH [OF this] have "foldl (\<lambda>ord k. reposition k ord) (reposition k acc) ks
      = remdups (remdups (acc @ [k]) @ ks)" by (simp only: r)
  then show ?case by (simp add: remdups_append_remdups)
qed

lemma last_occurrence_order_remdups: "last_occurrence_order ks = remdups ks"
  using foldl_reposition_remdups [of "[]" ks] by (simp add: last_occurrence_order_def)

lemma decodeOrderedMap_members:
  "keys om = [] \<Longrightarrow>
   decodeOrderedMap \<lparr>tokens = member_tokens ms @ Delim CHR ''}'' # rest, tail_error = te\<rparr> om
     = (None, \<lparr>tokens = rest, tail_error = te\<rparr>, om\<lparr>keys := last_occurrence_order (map fst ms)\<rparr>)"
  using value_skipped [of "JObject ms", THEN conjunct1, rule_format, OF refl, of "{}" om rest te]
  by (simp add: decodeOrderedMap_def last_occurrence_order_def)

lemma store_members_Cons:
  "store_members decodeT ((k, j) # ms) f
     = ((case fst (decodeT j) of
           None \<Rightarrow> fst (store_members decodeT ms (f(k \<mapsto> snd (decodeT j))))
         | Some err \<Rightarrow> Some err),
        snd (store_members decodeT ms (f(k \<mapsto> snd (decodeT j)))))"
  by (simp add: case_prod_unfold)

lemma store_members_other: "k \<notin> fst ` set ms \<Longrightarrow> snd (store_members decodeT ms f) k = f k"
proof (induction ms arbitrary: f)
  case Nil
  show ?case by simp
next
  case (Cons m ms)
  obtain k' j where m: "m = (k', j)" by (cases m)
  define e v where "e = fst (decodeT j)" and "v = snd (decodeT j)"
  from Cons.prems m have ne: "k \<noteq> k'" and rest: "k \<notin> fst ` set ms" by auto
  have "snd (store_members decodeT (m # ms) f) = snd (store_members decodeT ms (f(k' \<mapsto> v)))"
    unfolding m by (simp only: store_members_Cons snd_conv v_def)
  moreover have "snd (store_members decodeT ms (f(k' \<mapsto> v))) k = (f(k' \<mapsto> v)) k"
    using rest by (rule Cons.IH)
  ultimately show ?case using ne by simp
qed

lemma dom_store_members: "dom (snd (store_members decodeT ms f)) = dom f \<union> fst ` set ms"
proof (induction ms arbitrary: f)
  case Nil
  show ?case by simp
next
  case (Cons m ms)
  obtain k j where m: "m = (k, j)" by (cases m)
  define e v where "e = fst (decodeT j)" and "v = snd (decodeT j)"
  have "dom (snd (store_members decodeT ms (f(k \<mapsto> v)))) = dom (f(k \<mapsto> v)) \<union> fst ` set ms"
    by (rule Cons.IH)
  moreover have "snd (store_members decodeT (m # ms) f) = snd (store_members decodeT ms (f(k \<mapsto> v)))"
    unfolding m by (simp only: store_members_Cons snd_conv v_def)
  ultimately have "dom (snd (store_members decodeT (m # ms) f)) = insert k (dom f) \<union> fst ` set ms"
    by (simp only: dom_fun_upd option.simps if_False)
  then show ?case unfolding m by auto
qed

lemma store_members_member: "k \<in> fst ` set ms \<Longrightarrow> snd (store_members decodeT ms f) k \<noteq> None"
  using dom_store_members [of decodeT ms f] by (metis UnI2 domIff)

lemma store_members_error:
  "fst (store_members decodeT ms f) = first_error (map (\<lambda>m. fst (decodeT (snd m))) ms)"
proof (induction ms arbitrary: f)
  case Nil
  show ?case by simp
next
  case (Cons m ms)
  obtain k j where m: "m = (k, j)" by (cases m)
  define e v where "e = fst (decodeT j)" and "v = snd (decodeT j)"
  have "fst (store_members decodeT (m # ms) f)
      = (case e of None \<Rightarrow> fst (store_members decodeT ms (f(k \<mapsto> v))) | Some err \<Rightarrow> Some err)"
    unfolding m by (simp only: store_members_Cons fst_conv v_def e_def)
  also have "fst (store_members decodeT ms (f(k \<mapsto> v))) = first_error (map (\<lambda>m. fst (decodeT (snd m))) ms)"
    by (rule Cons.IH)
  finally show ?case unfolding m by (cases e) (simp_all add: e_def)
qed

lemma json_Unmarshal_object:
  "scan b = Inr (JObject ms) \<Longrightarrow>
   json_Unmarshal scan decodeT b m
     = (fst (store_members decodeT ms (case m of None \<Rightarrow> Map.empty | Some f \<Rightarrow> f)),
        Some (snd (store_members decodeT ms (case m of None \<Rightarrow> Map.empty | Some f \<Rightarrow> f))))"
  by (simp add: json_Unmarshal_def case_prod_unfold)

lemma json_Unmarshal_error: "fst (json_Unmarshal scan decodeT b m) = fst (json_Unmarshal scan decodeT b m')"
proof (cases "scan b")
  case (Inl e)
  then show ?thesis by (simp add: json_Unmarshal_def)
next
  case (Inr doc)
  then show ?thesis
    by (cases doc) (simp_all add: json_Unmarshal_def case_prod_unfold store_members_error)
qed

lemma UnmarshalJSON_object:
  assumes "scan b = Inr (JObject ms)" and "fst (json_Unmarshal scan decodeT b (vals om)) = None"
  shows "UnmarshalJSON scan decodeT b om =
     (None, om\<lparr>keys := last_occurrence_order (map fst ms),
               vals := Some (snd (store_members decodeT ms (case vals om of None \<Rightarrow> Map.empty | Some f \<Rightarrow> f)))\<rparr>)"
proof -
  have t: "tokens_of (JObject ms) = Delim CHR ''{'' # member_tokens ms @ Delim CHR ''}'' # []"
    by (simp add: member_tokens_def)
  let ?m1 = "if vals om = None then Some Map.empty else vals om"
  have m1: "(case ?m1 of None \<Rightarrow> Map.empty | Some f \<Rightarrow> f) = (case vals om of None \<Rightarrow> Map.empty | Some f \<Rightarrow> f)"
    by (cases "vals om") simp_all
  have "fst (json_Unmarshal scan decodeT b ?m1) = None"
    using assms(2) json_Unmarshal_error [of scan decodeT b ?m1 "vals om"] by simp
  then have j: "json_Unmarshal scan decodeT b ?m1
      = (None, Some (snd (store_members decodeT ms (case vals om of None \<Rightarrow> Map.empty | Some f \<Rightarrow> f))))"
    using json_Unmarshal_object [of scan b ms decodeT ?m1, OF assms(1)] by (simp only: m1) simp
  have om1: "vals (if vals om = None then om\<lparr>vals := Some Map.empty\<rparr> else om) = ?m1"
    by simp
  show ?thesis
    using assms(1)
    by (simp add: UnmarshalJSON_def Let_def om1 j NewDecoder_def t
         decodeOrderedMap_members [of _ ms "[]" EOF, simplified] del: tokens_of.simps)
qed

lemma UnmarshalJSON_object_error:
  assumes "scan b = Inr (JObject ms)" and "fst (json_Unmarshal scan decodeT b (vals om)) = Some e"
  shows "UnmarshalJSON scan decodeT b om =
     (Some e, om\<lparr>vals := Some (snd (store_members decodeT ms (case vals om of None \<Rightarrow> Map.empty | Some f \<Rightarrow> f)))\<rparr>)"
proof -
  let ?m1 = "if vals om = None then Some Map.empty else vals om"
  have m1: "(case ?m1 of None \<Rightarrow> Map.empty | Some f \<Rightarrow> f) = (case vals om of None \<Rightarrow> Map.empty | Some f \<Rightarrow> f)"
    by (cases "vals om") simp_all
  have "fst (json_Unmarshal scan decodeT b ?m1) = Some e"
    using assms(2) json_Unmarshal_error [of scan decodeT b ?m1 "vals om"] by simp
  then have j: "json_Unmarshal scan decodeT b ?m1
      = (Some e, Some (snd (store_members decodeT ms (case vals om of None \<Rightarrow> Map.empty | Some f \<Rightarrow> f))))"
    using json_Unmarshal_object [of scan b ms decodeT ?m1, OF assms(1)] by (simp only: m1) simp
  have om1: "vals (if vals om = None then om\<lparr>vals := Some Map.empty\<rparr> else om) = ?m1"
    by simp
  show ?thesis
    by (simp add: UnmarshalJSON_def Let_def om1 j)
qed

lemma UnmarshalJSON_error:
  assumes "scan b = Inl e"
  shows "UnmarshalJSON scan decodeT b om =
     (Some e, om\<lparr>vals := (if vals om = None then Some Map.empty else vals om)\<rparr>)"
  using assms by (simp add: UnmarshalJSON_def json_Unmarshal_def Let_def)

lemma UnmarshalJSON_null:
  assumes "scan b = Inr JNull"
  shows "UnmarshalJSON scan decodeT b om = (Some EOF, om\<lparr>keys := [], vals := None\<rparr>)"
  using assms
  by (simp add: UnmarshalJSON_def json_Unmarshal_def Let_def NewDecoder_def decodeOrderedMap_def
      decodeOrderedMap_loop.simps [of "\<lparr>tokens = [], tail_error = EOF\<rparr>"])

lemma UnmarshalJSON_other:
  assumes "scan b = Inr doc" "doc \<noteq> JNull" "\<forall>ms. doc \<noteq> JObject ms"
  shows "UnmarshalJSON scan decodeT b om =
     (Some UnmarshalTypeError, om\<lparr>vals := (if vals om = None then Some Map.empty else vals om)\<rparr>)"
  using assms by (cases doc) (simp_all add: UnmarshalJSON_def json_Unmarshal_def Let_def)

lemma set_last_occurrence_order [simp]: "set (last_occurrence_order ks) = set ks"
  by (simp add: last_occurrence_order_remdups)

lemma distinct_last_occurrence_order [simp]: "distinct (last_occurrence_order ks)"
  by (simp add: last_occurrence_order_remdups)

text \<open>
  C1. Decoding rebuilds the key order by the last-occurrence rule. \<open>decodeOrderedMap\<close>,
  started on a container with no keys at the tokens of the members of any JSON object,
  consumes them up to the closing brace, whatever values, nested objects and arrays they
  hold, returns no error and leaves as key order the result of processing the member
  keys left to right: a key seen for the first time is appended, a repeated key is
  removed from its slot and appended at the end. So does \<open>UnmarshalJSON\<close> on every text
  that the scanner reads as an object and that \<open>json.Unmarshal\<close> stores without an error;
  for the member keys \<open>a, b, c, d, b, c, d, e, e, e, a, b\<close> the key order is
  \<open>c, d, e, a, b\<close>.
\<close>

theorem decode_rebuilds_last_occurrence_order:
  fixes om :: "'a OrderedMap" and om' :: "'b OrderedMap"
  shows
  "(keys om = [] \<longrightarrow>
      decodeOrderedMap \<lparr>tokens = member_tokens ms @ Delim CHR ''}'' # rest, tail_error = te\<rparr> om
        = (None, \<lparr>tokens = rest, tail_error = te\<rparr>, om\<lparr>keys := last_occurrence_order (map fst ms)\<rparr>))
   \<and> (scan b = Inr (JObject ms) \<and> fst (json_Unmarshal scan decodeT b (vals om')) = None \<longrightarrow>
      fst (UnmarshalJSON scan decodeT b om') = None
      \<and> Keys (snd (UnmarshalJSON scan decodeT b om')) = last_occurrence_order (map fst ms))
   \<and> (scan b = Inr (JObject ms) \<and> fst (json_Unmarshal scan decodeT b (vals om')) = None
        \<and> map fst ms = [''a'', ''b'', ''c'', ''d'', ''b'', ''c'', ''d'', ''e'', ''e'', ''e'', ''a'', ''b''] \<longrightarrow>
      Keys (snd (UnmarshalJSON scan decodeT b om')) = [''c'', ''d'', ''e'', ''a'', ''b''])"
proof (intro conjI impI)
  assume "keys om = []"
  then show "decodeOrderedMap \<lparr>tokens = member_tokens ms @ Delim CHR ''}'' # rest, tail_error = te\<rparr> om
        = (None, \<lparr>tokens = rest, tail_error = te\<rparr>, om\<lparr>keys := last_occurrence_order (map fst ms)\<rparr>)"
    by (rule decodeOrderedMap_members)
next
  assume s: "scan b = Inr (JObject ms) \<and> fst (json_Unmarshal scan decodeT b (vals om')) = None"
  show "fst (UnmarshalJSON scan decodeT b om') = None"
    and "Keys (snd (UnmarshalJSON scan decodeT b om')) = last_occurrence_order (map fst ms)"
    using UnmarshalJSON_object [of scan b ms decodeT om'] s by (simp_all add: Keys_def)
next
  assume a: "scan b = Inr (JObject ms) \<and> fst (json_Unmarshal scan decodeT b (vals om')) = None
    \<and> map fst ms = [''a'', ''b'', ''c'', ''d'', ''b'', ''c'', ''d'', ''e'', ''e'', ''e'', ''a'', ''b'']"
  then have s: "scan b = Inr (JObject ms)" by simp
  have "last_occurrence_order [''a'', ''b'', ''c'', ''d'', ''b'', ''c'', ''d'', ''e'', ''e'', ''e'', ''a'', ''b'']
      = [''c'', ''d'', ''e'', ''a'', ''b'']"
    by (simp add: last_occurrence_order_remdups)
  with a show "Keys (snd (UnmarshalJSON scan decodeT b om')) = [''c'', ''d'', ''e'', ''a'', ''b'']"
    using UnmarshalJSON_object [of scan b ms decodeT om'] by (simp add: Keys_def)
qed

lemma duplicate_keys_members:
  "duplicate_keys_doc = JObject ms \<Longrightarrow>
   map fst ms = [''a'', ''b'', ''c'', ''d'', ''b'', ''c'', ''d'', ''e'', ''e'', ''e'', ''a'', ''b'']"
  by (auto simp: duplicate_keys_doc_def)

lemma float64_limit_large: "2 ^ 64 \<le> float64_limit"
proof -
  have "(2::int) ^ 1024 = 2 ^ 970 * 2 ^ 54" by (simp flip: power_add)
  then have "float64_limit = 2 ^ 970 * (2 ^ 54 - 1)"
    by (simp only: float64_limit_def right_diff_distrib mult_1_right)
  moreover have "(2::int) ^ 64 \<le> 2 ^ 970" by (rule power_increasing) simp_all
  moreover have "(2::int) ^ 970 * 1 \<le> 2 ^ 970 * (2 ^ 54 - 1)"
    by (rule mult_left_mono) simp_all
  ultimately show ?thesis by simp
qed

lemma decode_generic_small [simp]:
  "\<bar>n\<bar> < 2 ^ 64 \<Longrightarrow> decode_generic (JNumber n) = (None, GNum n)"
  using float64_limit_large by simp

declare decode_generic.simps(3) [simp del]

lemma duplicate_keys_decode:
  "fst (json_Unmarshal (scan_table [(duplicate_keys_text, duplicate_keys_doc)]) decode_generic
         duplicate_keys_text m) = None"
  by (simp add: json_Unmarshal_def scan_table_def duplicate_keys_doc_def store_members_error
        split: prod.splits)

theorem decode_rebuilds_last_occurrence_order_witness:
  "keys (zero_OrderedMap :: gvalue OrderedMap) = []
   \<and> fst (snd (decodeOrderedMap \<lparr>tokens = tl (tokens_of duplicate_keys_doc), tail_error = EOF\<rparr>
              (zero_OrderedMap :: gvalue OrderedMap))) = \<lparr>tokens = [], tail_error = EOF\<rparr>
   \<and> scan_table [(duplicate_keys_text, duplicate_keys_doc)] duplicate_keys_text = Inr duplicate_keys_doc
   \<and> fst (json_Unmarshal (scan_table [(duplicate_keys_text, duplicate_keys_doc)]) decode_generic
            duplicate_keys_text (vals (New :: gvalue OrderedMap))) = None
   \<and> fst (UnmarshalJSON (scan_table [(duplicate_keys_text, duplicate_keys_doc)]) decode_generic
            duplicate_keys_text New) = None
   \<and> Keys (snd (UnmarshalJSON (scan_table [(duplicate_keys_text, duplicate_keys_doc)]) decode_generic
            duplicate_keys_text New)) = [''c'', ''d'', ''e'', ''a'', ''b'']"
proof -
  obtain ms where ms: "duplicate_keys_doc = JObject ms" by (simp add: duplicate_keys_doc_def)
  note ks = duplicate_keys_members [OF ms]
  have z: "keys (zero_OrderedMap :: gvalue OrderedMap) = []" by (simp add: zero_OrderedMap_def)
  have s: "scan_table [(duplicate_keys_text, duplicate_keys_doc)] duplicate_keys_text = Inr (JObject ms)"
    by (simp add: scan_table_def ms)
  note j = duplicate_keys_decode [of "vals (New :: gvalue OrderedMap)"]
  have t: "tl (tokens_of duplicate_keys_doc) = member_tokens ms @ Delim CHR ''}'' # []"
    by (simp add: ms member_tokens_def)
  note inst = decode_rebuilds_last_occurrence_order
    [of "zero_OrderedMap :: gvalue OrderedMap" ms "[]" EOF
        "scan_table [(duplicate_keys_text, duplicate_keys_doc)]" duplicate_keys_text decode_generic
        "New :: gvalue OrderedMap"]
  from inst z have 1: "fst (snd (decodeOrderedMap \<lparr>tokens = tl (tokens_of duplicate_keys_doc), tail_error = EOF\<rparr>
              (zero_OrderedMap :: gvalue OrderedMap))) = \<lparr>tokens = [], tail_error = EOF\<rparr>"
    by (simp only: t) simp
  note i2 = inst [THEN conjunct2, THEN conjunct1, rule_format, OF conjI, OF s j]
  have 2: "fst (UnmarshalJSON (scan_table [(duplicate_keys_text, duplicate_keys_doc)]) decode_generic
            duplicate_keys_text New) = None"
    by (rule i2 [THEN conjunct1])
  have 3: "Keys (snd (UnmarshalJSON (scan_table [(duplicate_keys_text, duplicate_keys_doc)]) decode_generic
            duplicate_keys_text New)) = [''c'', ''d'', ''e'', ''a'', ''b'']"
    by (rule inst [THEN conjunct2, THEN conjunct2, rule_format, OF conjI, OF s conjI, OF j ks])
  from z 1 s [folded ms] j 2 3 show ?thesis by (intro conjI)
qed
section \<open>UnmarshalJSON and the container it is applied to\<close>

lemma map_read_store_empty [simp]: "map_read (Some Map.empty) k = None"
  by (simp add: map_read_def)

lemma map_read_nil_to_empty:
  "map_read (if m = None then Some Map.empty else m) k = map_read m k"
  by (cases m) (simp_all add: map_read_def)

text \<open>
  C6. On a malformed text, one the scanner rejects (an unterminated string, mismatched
  brackets, an invalid token, a truncated text), \<open>UnmarshalJSON\<close> returns the scanner's
  error, and the container is not populated: its key order, what \<open>Get\<close> finds in it and
  its flag are as before the call.
\<close>

theorem UnmarshalJSON_malformed_input:
  fixes om :: "('v::default) OrderedMap"
  assumes "scan b = Inl e"
  shows "fst (UnmarshalJSON scan decodeT b om) = Some e
     \<and> Keys (snd (UnmarshalJSON scan decodeT b om)) = Keys om
     \<and> (\<forall>k. Get k (snd (UnmarshalJSON scan decodeT b om)) = Get k om)
     \<and> escapeHTML (snd (UnmarshalJSON scan decodeT b om)) = escapeHTML om"
  using assms by (simp add: UnmarshalJSON_error Keys_def Get_def map_read_nil_to_empty)

theorem UnmarshalJSON_malformed_input_witness:
  "member_a_scan ''{\"a\":1'' = Inl SyntaxError
   \<and> fst (UnmarshalJSON member_a_scan decode_generic ''{\"a\":1'' holds_x) = Some SyntaxError
   \<and> Keys (snd (UnmarshalJSON member_a_scan decode_generic ''{\"a\":1'' holds_x)) = [''x'']
   \<and> Get ''x'' (snd (UnmarshalJSON member_a_scan decode_generic ''{\"a\":1'' holds_x)) = (GNum 1, True)
   \<and> Get ''a'' (snd (UnmarshalJSON member_a_scan decode_generic ''{\"a\":1'' holds_x)) = (GNil, False)"
proof -
  have s: "member_a_scan ''{\"a\":1'' = Inl SyntaxError"
    by (simp add: member_a_scan_def scan_table_def)
  note inst = UnmarshalJSON_malformed_input
    [where scan = member_a_scan and e = SyntaxError and decodeT = decode_generic and om = holds_x, OF s]
  have g: "Get ''x'' holds_x = (GNum 1, True)" "Get ''a'' holds_x = (GNil, False)" "Keys holds_x = [''x'']"
    by (simp_all add: Get_def holds_x_def map_read_def default_gvalue_def Keys_def)
  from inst g s show ?thesis by simp
qed

lemma UnmarshalJSON_object_vals:
  assumes "scan b = Inr (JObject ms)"
  shows "vals (snd (UnmarshalJSON scan decodeT b om))
     = Some (snd (store_members decodeT ms (case vals om of None \<Rightarrow> Map.empty | Some f \<Rightarrow> f)))"
proof (cases "fst (json_Unmarshal scan decodeT b (vals om))")
  case None
  show ?thesis by (simp add: UnmarshalJSON_object [of scan b ms decodeT om, OF assms None])
next
  case (Some e)
  show ?thesis by (simp add: UnmarshalJSON_object_error [of scan b ms decodeT om e, OF assms Some])
qed

lemma member_a_scanned: "member_a_scan ''{\"a\":1}'' = Inr (JObject [(''a'', JNumber 1)])"
  by (simp add: member_a_scan_def scan_table_def)

lemma member_a_decoded: "fst (json_Unmarshal member_a_scan decode_generic ''{\"a\":1}'' m) = None"
  by (simp add: json_Unmarshal_object [of member_a_scan _ "[(''a'', JNumber 1)]", OF member_a_scanned]
        store_members_error)

text \<open>
  C10. \<open>UnmarshalJSON\<close> on a container that holds entries, with a text that is an
  object: when \<open>json.Unmarshal\<close> returns no error, the key order is rebuilt from the
  members of the text alone; every key of the text is found afterwards, and for every
  key that the text does not name \<open>Get\<close> returns what it returned before the call, so
  the entries of the map that the text does not name are retained. An instance: the
  container built by \<open>Set("x", 1)\<close>, decoded into from \<open>{"a":1}\<close>, returns no error, still
  finds \<open>x\<close>, and has the key order \<open>a\<close>.
\<close>

theorem UnmarshalJSON_keeps_other_entries:
  fixes om :: "('v::default) OrderedMap"
  shows
  "(scan b = Inr (JObject ms) \<and> fst (json_Unmarshal scan decodeT b (vals om)) = None \<longrightarrow>
      fst (UnmarshalJSON scan decodeT b om) = None
      \<and> Keys (snd (UnmarshalJSON scan decodeT b om)) = last_occurrence_order (map fst ms))
   \<and> (scan b = Inr (JObject ms) \<longrightarrow>
      (\<forall>k. k \<notin> fst ` set ms \<longrightarrow> Get k (snd (UnmarshalJSON scan decodeT b om)) = Get k om)
      \<and> (\<forall>k. k \<in> fst ` set ms \<longrightarrow> snd (Get k (snd (UnmarshalJSON scan decodeT b om)))))
   \<and> SetAll [(''x'', GNum 1)] New = Inr holds_x
   \<and> fst (UnmarshalJSON member_a_scan decode_generic ''{\"a\":1}'' holds_x) = None
   \<and> Get ''x'' (snd (UnmarshalJSON member_a_scan decode_generic ''{\"a\":1}'' holds_x)) = (GNum 1, True)
   \<and> Keys (snd (UnmarshalJSON member_a_scan decode_generic ''{\"a\":1}'' holds_x)) = [''a'']"
proof (intro conjI impI allI)
  assume s: "scan b = Inr (JObject ms) \<and> fst (json_Unmarshal scan decodeT b (vals om)) = None"
  note u = UnmarshalJSON_object [of scan b ms decodeT om, OF s [THEN conjunct1] s [THEN conjunct2]]
  show "fst (UnmarshalJSON scan decodeT b om) = None" by (simp add: u)
  show "Keys (snd (UnmarshalJSON scan decodeT b om)) = last_occurrence_order (map fst ms)"
    by (simp add: u Keys_def)
next
  assume s: "scan b = Inr (JObject ms)"
  note v = UnmarshalJSON_object_vals [of scan b ms decodeT om, OF s]
  show "Get k (snd (UnmarshalJSON scan decodeT b om)) = Get k om" if "k \<notin> fst ` set ms" for k
    using that by (cases "vals om") (simp_all add: v Get_def map_read_def store_members_other)
  show "snd (Get k (snd (UnmarshalJSON scan decodeT b om)))" if "k \<in> fst ` set ms" for k
    using store_members_member [OF that, of decodeT "case vals om of None \<Rightarrow> Map.empty | Some f \<Rightarrow> f"]
    by (auto simp: v Get_def map_read_def)
next
  show "SetAll [(''x'', GNum 1)] New = Inr holds_x"
    by (simp add: Set_def New_def holds_x_def map_read_def)
next
  note u = UnmarshalJSON_object [of member_a_scan "''{\"a\":1}''" "[(''a'', JNumber 1)]" decode_generic holds_x,
      OF member_a_scanned member_a_decoded]
  show "fst (UnmarshalJSON member_a_scan decode_generic ''{\"a\":1}'' holds_x) = None"
    by (simp add: u)
  show "Get ''x'' (snd (UnmarshalJSON member_a_scan decode_generic ''{\"a\":1}'' holds_x)) = (GNum 1, True)"
    unfolding u by (simp add: Get_def map_read_def holds_x_def store_members_Cons)
  show "Keys (snd (UnmarshalJSON member_a_scan decode_generic ''{\"a\":1}'' holds_x)) = [''a'']"
    by (simp add: u Keys_def last_occurrence_order_remdups)
qed

theorem UnmarshalJSON_keeps_other_entries_witness:
  "member_a_scan ''{\"a\":1}'' = Inr (JObject [(''a'', JNumber 1)])
   \<and> fst (json_Unmarshal member_a_scan decode_generic ''{\"a\":1}'' (vals holds_x)) = None
   \<and> ''x'' \<notin> fst ` set [(''a'', JNumber 1)]
   \<and> fst (UnmarshalJSON member_a_scan decode_generic ''{\"a\":1}'' holds_x) = None
   \<and> Keys (snd (UnmarshalJSON member_a_scan decode_generic ''{\"a\":1}'' holds_x)) = [''a'']
   \<and> ''x'' \<notin> set (Keys (snd (UnmarshalJSON member_a_scan decode_generic ''{\"a\":1}'' holds_x)))
   \<and> snd (Get ''x'' (snd (UnmarshalJSON member_a_scan decode_generic ''{\"a\":1}'' holds_x))) = True
   \<and> snd (Get ''a'' (snd (UnmarshalJSON member_a_scan decode_generic ''{\"a\":1}'' holds_x))) = True"
proof -
  note s = member_a_scanned
  note j = member_a_decoded [of "vals holds_x"]
  have n: "''x'' \<notin> fst ` set [(''a'', JNumber 1)]" by simp
  have m: "''a'' \<in> fst ` set [(''a'', JNumber 1)]" by simp
  have g: "Get ''x'' holds_x = (GNum 1, True)"
    by (simp add: Get_def holds_x_def map_read_def)
  note thm0 = UnmarshalJSON_keeps_other_entries
    [of member_a_scan "''{\"a\":1}''" "[(''a'', JNumber 1)]" decode_generic holds_x]
  note inst = thm0 [THEN conjunct1, rule_format, OF conjI, OF s j]
  note keep = thm0 [THEN conjunct2, THEN conjunct1, rule_format, OF s]
  have 1: "fst (UnmarshalJSON member_a_scan decode_generic ''{\"a\":1}'' holds_x) = None"
    by (rule inst [THEN conjunct1])
  have 2: "Keys (snd (UnmarshalJSON member_a_scan decode_generic ''{\"a\":1}'' holds_x)) = [''a'']"
    using inst [THEN conjunct2] by (simp add: last_occurrence_order_remdups)
  have 3: "''x'' \<notin> set (Keys (snd (UnmarshalJSON member_a_scan decode_generic ''{\"a\":1}'' holds_x)))"
    by (simp only: 2) simp
  have 4: "snd (Get ''x'' (snd (UnmarshalJSON member_a_scan decode_generic ''{\"a\":1}'' holds_x))) = True"
    using keep [THEN conjunct1, rule_format, OF n] g by simp
  have 5: "snd (Get ''a'' (snd (UnmarshalJSON member_a_scan decode_generic ''{\"a\":1}'' holds_x))) = True"
    using keep [THEN conjunct2, rule_format, OF m] by simp
  from s j n 1 2 3 4 5 show ?thesis by (intro conjI)
qed
section \<open>The invariant\<close>

lemma map_keys_Some [simp]: "map_keys (Some f) = dom f"
  by (simp add: map_keys_def)

lemma map_keys_None [simp]: "map_keys None = {}"
  by (simp add: map_keys_def)








text \<open>
  C7. The claim is that after every sequence of \<open>Set\<close>, \<open>Delete\<close>, \<open>Sort\<close>, \<open>SortKeys\<close> and
  \<open>UnmarshalJSON\<close> operations on a new container the key order has no duplicates and
  its keys are the keys of the map. \<open>Set\<close>, \<open>Delete\<close>, \<open>Sort\<close> and \<open>SortKeys\<close> keep this
  (\<open>invariant_of_built_containers\<close>); \<open>UnmarshalJSON\<close> does not. It empties the key order
  and rebuilds it from the text, while \<open>json.Unmarshal\<close> stores into the map the container
  has: \<open>Set("x", 1)\<close> on a new container, then \<open>UnmarshalJSON\<close> of \<open>{"a":1}\<close>, returns no
  error and leaves \<open>x\<close> in the map and not in the key order.
\<close>

theorem invariant_broken_by_UnmarshalJSON:
  "SetAll [(''x'', GNum 1)] New = Inr holds_x
   \<and> fst (UnmarshalJSON member_a_scan decode_generic ''{\"a\":1}'' holds_x) = None
   \<and> ''x'' \<notin> set (keys (snd (UnmarshalJSON member_a_scan decode_generic ''{\"a\":1}'' holds_x)))
   \<and> ''x'' \<in> map_keys (vals (snd (UnmarshalJSON member_a_scan decode_generic ''{\"a\":1}'' holds_x)))
   \<and> \<not> order_invariant (snd (UnmarshalJSON member_a_scan decode_generic ''{\"a\":1}'' holds_x))"
proof -
  note u = UnmarshalJSON_object [of member_a_scan "''{\"a\":1}''" "[(''a'', JNumber 1)]" decode_generic holds_x,
      OF member_a_scanned member_a_decoded]
  have 0: "SetAll [(''x'', GNum 1)] New = Inr holds_x"
    by (simp add: Set_def New_def holds_x_def map_read_def)
  have 1: "fst (UnmarshalJSON member_a_scan decode_generic ''{\"a\":1}'' holds_x) = None"
    by (simp add: u)
  have 2: "''x'' \<notin> set (keys (snd (UnmarshalJSON member_a_scan decode_generic ''{\"a\":1}'' holds_x)))"
    by (simp add: u last_occurrence_order_remdups)
  have 3: "''x'' \<in> map_keys (vals (snd (UnmarshalJSON member_a_scan decode_generic ''{\"a\":1}'' holds_x)))"
    unfolding u by (simp add: holds_x_def)
  from 2 3 have 4: "\<not> order_invariant (snd (UnmarshalJSON member_a_scan decode_generic ''{\"a\":1}'' holds_x))"
    unfolding order_invariant_def by blast
  from 0 1 2 3 4 show ?thesis by (intro conjI)
qed


text \<open>
  The other way round, when \<open>json.Unmarshal\<close> reports a value that does not fit the
  element type it has stored the members all the same, and \<open>UnmarshalJSON\<close> returns
  before it rebuilds the key order: a new container of \<open>int\<close> given \<open>{"a":"x"}\<close> ends with
  \<open>a\<close> in the map and an empty key order.
\<close>

lemma invariant_broken_by_failed_UnmarshalJSON:
  "fst (UnmarshalJSON string_a_scan decode_int ''{\"a\":\"x\"}'' New) = Some UnmarshalTypeError
   \<and> keys (snd (UnmarshalJSON string_a_scan decode_int ''{\"a\":\"x\"}'' New)) = []
   \<and> ''a'' \<in> map_keys (vals (snd (UnmarshalJSON string_a_scan decode_int ''{\"a\":\"x\"}'' New)))
   \<and> \<not> order_invariant (snd (UnmarshalJSON string_a_scan decode_int ''{\"a\":\"x\"}'' New))"
proof -
  have s: "string_a_scan ''{\"a\":\"x\"}'' = Inr (JObject [(''a'', JString ''x'')])"
    by (simp add: string_a_scan_def scan_table_def)
  have e: "fst (json_Unmarshal string_a_scan decode_int ''{\"a\":\"x\"}'' (vals (New :: int OrderedMap)))
      = Some UnmarshalTypeError"
    by (simp add: json_Unmarshal_object [of string_a_scan _ "[(''a'', JString ''x'')]", OF s]
          store_members_error)
  note u = UnmarshalJSON_object_error
    [of string_a_scan "''{\"a\":\"x\"}''" "[(''a'', JString ''x'')]" decode_int New UnmarshalTypeError, OF s e]
  have 1: "fst (UnmarshalJSON string_a_scan decode_int ''{\"a\":\"x\"}'' New) = Some UnmarshalTypeError"
    by (simp add: u)
  have 2: "keys (snd (UnmarshalJSON string_a_scan decode_int ''{\"a\":\"x\"}'' New)) = []"
    unfolding u by (simp add: New_def)
  have 3: "''a'' \<in> map_keys (vals (snd (UnmarshalJSON string_a_scan decode_int ''{\"a\":\"x\"}'' New)))"
    unfolding u by (simp add: dom_store_members)
  have 4: "\<not> order_invariant (snd (UnmarshalJSON string_a_scan decode_int ''{\"a\":\"x\"}'' New))"
  proof
    assume "order_invariant (snd (UnmarshalJSON string_a_scan decode_int ''{\"a\":\"x\"}'' New))"
    then have "set (keys (snd (UnmarshalJSON string_a_scan decode_int ''{\"a\":\"x\"}'' New)))
        = map_keys (vals (snd (UnmarshalJSON string_a_scan decode_int ''{\"a\":\"x\"}'' New)))"
      unfolding order_invariant_def by (rule conjunct2)
    with 3 have "''a'' \<in> set (keys (snd (UnmarshalJSON string_a_scan decode_int ''{\"a\":\"x\"}'' New)))"
      by (simp only:)
    then show False by (simp only: 2) simp
  qed
  from 1 2 3 4 show ?thesis by (intro conjI)
qed
section \<open>MarshalJSON follows the key order\<close>

lemma join_Cons: "join sep (x # xs) = x @ (if xs = [] then [] else sep @ join sep xs)"
  by (cases xs) simp_all

lemma marshal_entries_text:
  assumes "\<forall>k\<in>set ks. marshalKey (escapeHTML om) k = Inr (ek k)
             \<and> marshalT (escapeHTML om) (map_index (vals om) k) = Inr (ev k)"
  shows "marshal_entries marshalKey marshalT om i ks buf =
     Inr (buf @ (if ks = [] then [] else (if i > 0 then '','' else [])
                   @ join '','' (map (\<lambda>k. member_lines (ek k) (ev k)) ks)))"
  using assms
proof (induction ks arbitrary: i buf)
  case Nil
  show ?case by simp
next
  case (Cons k ks)
  have k: "marshalKey (escapeHTML om) k = Inr (ek k)"
    and v: "marshalT (escapeHTML om) (map_index (vals om) k) = Inr (ev k)"
    using Cons.prems by simp_all
  have rest: "\<forall>k\<in>set ks. marshalKey (escapeHTML om) k = Inr (ek k)
             \<and> marshalT (escapeHTML om) (map_index (vals om) k) = Inr (ev k)"
    using Cons.prems by simp
  note ih = Cons.IH [OF rest]
  show ?case
    by (simp add: Let_def Encode_def k v ih join_Cons member_lines_def)
qed

lemma digits_small: "n < 10 \<Longrightarrow> digits n = [hex_digit n]"
  by simp

declare digits.simps [simp del]

lemma example_values:
  "map_index (vals example_map) ''b'' = 2"
  "map_index (vals example_map) ''a'' = 1"
  "map_index (vals example_map) ''c'' = 3"
  by (simp_all add: example_map_def map_index_def map_read_def)

text \<open>
  C2 as stated fails: the text that \<open>MarshalJSON\<close> returns is not the one the algorithm
  of the claim describes. \<open>Encoder.Encode\<close> ends what it writes with a line feed, so a
  line feed follows every encoded key and every encoded value: for \<open>{b:2, a:1, c:3}\<close>
  the algorithm describes \<open>{"b":2,"a":1,"c":3}\<close>, and \<open>MarshalJSON\<close> returns another
  text (the tests remove the line feeds before they compare).
\<close>

theorem MarshalJSON_line_feeds_counterexample:
  "MarshalJSON marshal_string marshal_int example_map
     \<noteq> Inr (object_text (map (\<lambda>k. member_text (json_string True k)
                                      (decimal (map_index (vals example_map) k)))
                            (keys example_map)))
   \<and> object_text (map (\<lambda>k. member_text (json_string True k)
                                      (decimal (map_index (vals example_map) k)))
                            (keys example_map)) = ''{\"b\":2,\"a\":1,\"c\":3}''"
proof -
  have k: "keys example_map = [''b'', ''a'', ''c'']"
    and e: "escapeHTML example_map = True" by (simp_all add: example_map_def)
  show ?thesis
    by (simp add: MarshalJSON_def k e example_values Let_def Encode_def marshal_string_def
          marshal_int_def object_text_def member_text_def json_string_def escape_char_def
          html_char_def decimal_def digits_small hex_digit_def)
qed

text \<open>
  C2, amended. For every container whose keys and values the library encodes without
  error, \<open>MarshalJSON\<close> returns a JSON object whose members are in the key order of the
  container: \<open>{\<close>; for each key in order the encoded key followed by a line feed, \<open>:\<close>,
  and the encoded value followed by a line feed, with \<open>,\<close> between the entries and none
  after the last; \<open>}\<close>. An empty container is encoded as the two characters \<open>{}\<close>.
\<close>

theorem MarshalJSON_follows_key_order:
  assumes "\<forall>k\<in>set (keys om). marshalKey (escapeHTML om) k = Inr (ek k)
             \<and> marshalT (escapeHTML om) (map_index (vals om) k) = Inr (ev k)"
  shows "MarshalJSON marshalKey marshalT om =
           Inr (object_text (map (\<lambda>k. member_lines (ek k) (ev k)) (keys om)))
         \<and> (keys om = [] \<longrightarrow> MarshalJSON marshalKey marshalT om = Inr ''{}'')"
proof -
  have "MarshalJSON marshalKey marshalT om =
           Inr (object_text (map (\<lambda>k. member_lines (ek k) (ev k)) (keys om)))"
    by (simp add: MarshalJSON_def object_text_def
          marshal_entries_text [of "keys om" marshalKey om ek marshalT ev, OF assms])
  then show ?thesis by (auto simp add: object_text_def)
qed

theorem MarshalJSON_follows_key_order_witness:
  "MarshalJSON marshal_string marshal_int example_map =
     Inr (''{\"b\"'' @ [CHR 0x0A] @ '':2'' @ [CHR 0x0A] @ '',\"a\"'' @ [CHR 0x0A] @ '':1'' @ [CHR 0x0A]
          @ '',\"c\"'' @ [CHR 0x0A] @ '':3'' @ [CHR 0x0A] @ ''}'')
   \<and> MarshalJSON marshal_string marshal_int New = Inr ''{}''"
proof -
  have h: "\<forall>k\<in>set (keys example_map).
      marshal_string (escapeHTML example_map) k = Inr (json_string True k)
      \<and> marshal_int (escapeHTML example_map) (map_index (vals example_map) k)
          = Inr (decimal (map_index (vals example_map) k))"
    by (simp add: example_map_def marshal_string_def marshal_int_def)
  have k: "keys example_map = [''b'', ''a'', ''c'']" by (simp add: example_map_def)
  have 1: "MarshalJSON marshal_string marshal_int example_map =
     Inr (''{\"b\"'' @ [CHR 0x0A] @ '':2'' @ [CHR 0x0A] @ '',\"a\"'' @ [CHR 0x0A] @ '':1'' @ [CHR 0x0A]
          @ '',\"c\"'' @ [CHR 0x0A] @ '':3'' @ [CHR 0x0A] @ ''}'')"
    using MarshalJSON_follows_key_order [of example_map marshal_string "json_string True" marshal_int
        "\<lambda>k. decimal (map_index (vals example_map) k)"] h
    by (simp add: k example_values object_text_def member_lines_def json_string_def escape_char_def
          html_char_def decimal_def digits_small hex_digit_def)
  have n: "keys (New :: int OrderedMap) = []" by (simp add: New_def)
  have 2: "MarshalJSON marshal_string marshal_int New = Inr ''{}''"
    using MarshalJSON_follows_key_order [of "New :: int OrderedMap" marshal_string "json_string True"
        marshal_int "\<lambda>k. decimal 0"] n
    by (simp add: object_text_def)
  from 1 2 show ?thesis by (rule conjI)
qed

section \<open>The escape-HTML setting\<close>

lemma html_chars_append [simp]: "html_chars (a @ b) = html_chars a @ html_chars b"
  by (simp add: html_chars_def)

lemma html_chars_Nil [simp]: "html_chars [] = []"
  by (simp add: html_chars_def)

lemma html_chars_Cons: "html_chars (c # cs) = (if html_char c then [c] else []) @ html_chars cs"
  by (simp add: html_chars_def)

lemma html_chars_concat: "html_chars (concat xs) = concat (map html_chars xs)"
  by (induction xs) simp_all

lemma html_chars_join:
  "html_chars sep = [] \<Longrightarrow> html_chars (join sep xs) = concat (map html_chars xs)"
  by (induction sep xs rule: join.induct) simp_all

lemma hex_digit_plain: "n < 16 \<Longrightarrow> \<not> html_char (hex_digit n)"
proof -
  assume "n < 16"
  then have "hex_digit n \<in> set ''0123456789abcdef''"
    unfolding hex_digit_def by (intro nth_mem) simp
  then show ?thesis by (auto simp add: html_char_def)
qed

lemma of_char_div_16: "(of_char c :: nat) div 16 < 16"
proof -
  have d: "n < 256 \<Longrightarrow> n div 16 < 16" for n :: nat by arith
  show ?thesis by (rule d) (rule nat_of_char_less_256)
qed

lemma html_chars_unicode_escape [simp]: "html_chars (unicode_escape c) = []"
proof -
  have m: "(of_char c :: nat) mod 16 < 16" by simp
  have p: "\<not> html_char (CHR 0x5C)" "\<not> html_char (CHR ''u'')" "\<not> html_char (CHR ''0'')"
    by (simp_all add: html_char_def)
  show ?thesis
    by (simp add: unicode_escape_def html_chars_Cons p hex_digit_plain [OF of_char_div_16]
          hex_digit_plain [OF m])
qed

lemma html_char_code: "html_char c \<Longrightarrow> \<not> (of_char c :: nat) < 32"
  by (auto simp add: html_char_def)

lemma html_char_plain:
  "html_char c \<Longrightarrow> c \<noteq> CHR 0x22 \<and> c \<noteq> CHR 0x5C \<and> c \<noteq> CHR 0x0A \<and> c \<noteq> CHR 0x0D \<and> c \<noteq> CHR 0x09"
  by (auto simp add: html_char_def)

lemma escape_char_html:
  "html_char c \<Longrightarrow> escape_char True c = unicode_escape c \<and> escape_char False c = [c]"
  using html_char_code [of c] html_char_plain [of c] by (simp add: escape_char_def)

lemma html_chars_escape_char:
  "html_chars (escape_char esc c) = (if esc then [] else html_chars [c])"
proof (cases "html_char c")
  case True
  then show ?thesis using escape_char_html [of c] by (cases esc) (simp_all add: html_chars_Cons)
next
  case False
  then show ?thesis
    by (simp add: escape_char_def html_chars_Cons) (simp add: html_char_def)
qed

lemma html_chars_json_string:
  "html_chars (json_string esc s) = (if esc then [] else html_chars s)"
proof -
  have "html_chars (concat (map (escape_char esc) s)) = (if esc then [] else html_chars s)"
    by (induction s) (simp_all add: html_chars_escape_char html_chars_Cons)
  then show ?thesis
    by (simp add: json_string_def html_chars_Cons html_char_def)
qed

lemma html_chars_digits [simp]: "html_chars (digits n) = []"
proof (induction n rule: digits.induct)
  case (1 n)
  show ?case
  proof (cases "n < 10")
    case True
    then show ?thesis by (simp add: digits_small html_chars_Cons hex_digit_plain)
  next
    case False
    have m: "n mod 10 < 16" using mod_less_divisor [of 10 n] by simp
    from False have "digits n = digits (n div 10) @ [hex_digit (n mod 10)]"
      by (subst digits.simps) simp
    then show ?thesis using 1 [OF False] m by (simp add: html_chars_Cons hex_digit_plain)
  qed
qed

lemma html_chars_decimal [simp]: "html_chars (decimal n) = []"
  by (simp add: decimal_def html_chars_Cons html_char_def)

lemma collect_Inr:
  "collect rs = Inr xs \<Longrightarrow> rs = map Inr xs"
proof (induction rs arbitrary: xs rule: collect.induct)
  case 1
  then show ?case by simp
next
  case (2 e rs)
  then show ?case by simp
next
  case (3 x rs)
  then show ?case by (cases "collect rs") auto
qed

lemma html_chars_parts:
  assumes "map f vs = map Inr ts"
    and "\<And>v t. v \<in> set vs \<Longrightarrow> f v = Inr t \<Longrightarrow> html_chars t = h v"
  shows "concat (map html_chars ts) = concat (map h vs)"
  using assms
proof (induction vs arbitrary: ts)
  case Nil
  then show ?case by simp
next
  case (Cons v vs)
  from Cons.prems(1) obtain t ts' where ts: "ts = t # ts'" and t: "f v = Inr t"
    and r: "map f vs = map Inr ts'"
    by (cases ts) auto
  have "html_chars t = h v" using Cons.prems(2) [of v t] t by simp
  moreover have "concat (map html_chars ts') = concat (map h vs)"
    using Cons.IH [OF r] Cons.prems(2) by simp
  ultimately show ?case by (simp add: ts)
qed

lemma html_chars_marshal_gvalue:
  "marshal_gvalue esc v = Inr t \<Longrightarrow> html_chars t = (if esc then [] else html_chars (strings_of v))"
proof (induction esc v arbitrary: t rule: marshal_gvalue.induct)
  case (1 esc)
  then show ?case by (auto simp add: html_chars_Cons html_char_def)
next
  case (2 esc b)
  then show ?case by (auto simp add: html_chars_Cons html_char_def)
next
  case (3 esc n)
  then show ?case by auto
next
  case (4 esc s)
  then show ?case by (auto simp add: html_chars_json_string)
next
  case (5 esc vs)
  from 5(2) obtain ts where c: "collect (map (marshal_gvalue esc) vs) = Inr ts"
    and t: "t = ''['' @ join '','' ts @ '']''"
    by (cases "collect (map (marshal_gvalue esc) vs)") auto
  have m: "map (marshal_gvalue esc) vs = map Inr ts" by (rule collect_Inr [OF c])
  have "concat (map html_chars ts)
      = concat (map (\<lambda>v. if esc then [] else html_chars (strings_of v)) vs)"
    by (rule html_chars_parts [OF m]) (rule 5(1))
  then have "html_chars (join '','' ts) = (if esc then [] else html_chars (strings_of (GSlice vs)))"
    by (simp add: html_chars_join html_chars_Cons html_char_def html_chars_concat comp_def)
  then show ?case by (simp add: t html_chars_Cons html_char_def)
next
  case (6 esc kvs)
  let ?f = "\<lambda>kv. case marshal_gvalue esc (snd kv) of
                                 Inl e \<Rightarrow> Inl e
                               | Inr t \<Rightarrow> Inr (member_text (json_string esc (fst kv)) t)"
  from 6(2) obtain ts where c: "collect (map ?f kvs) = Inr ts"
    and t: "t = object_text ts"
    by (cases "collect (map ?f kvs)") auto
  have m: "map ?f kvs = map Inr ts" by (rule collect_Inr [OF c])
  have "concat (map html_chars ts)
      = concat (map (\<lambda>kv. if esc then [] else html_chars (fst kv @ strings_of (snd kv))) kvs)"
  proof (rule html_chars_parts [OF m])
    fix kv u
    assume kv: "kv \<in> set kvs" and u: "?f kv = Inr u"
    from u obtain w where w: "marshal_gvalue esc (snd kv) = Inr w"
      and u': "u = member_text (json_string esc (fst kv)) w"
      by (cases "marshal_gvalue esc (snd kv)") auto
    have "html_chars w = (if esc then [] else html_chars (strings_of (snd kv)))"
      by (rule 6(1) [OF kv w])
    then show "html_chars u = (if esc then [] else html_chars (fst kv @ strings_of (snd kv)))"
      by (simp add: u' member_text_def html_chars_json_string html_chars_Cons html_char_def)
  qed
  then have "html_chars (join '','' ts) = (if esc then [] else html_chars (strings_of (GMap kvs)))"
    by (simp add: html_chars_join html_chars_Cons html_char_def html_chars_concat comp_def)
  then show ?case by (simp add: t object_text_def html_chars_Cons html_char_def)
next
  case (7 esc)
  then show ?case by simp
qed

lemma html_chars_marshal_entries:
  assumes "\<And>k t. marshalKey (escapeHTML om) k = Inr t \<Longrightarrow> html_chars t = hk k"
    and "\<And>v t. marshalT (escapeHTML om) v = Inr t \<Longrightarrow> html_chars t = hv v"
    and "marshal_entries marshalKey marshalT om i ks buf = Inr out"
  shows "html_chars out
           = html_chars buf @ concat (map (\<lambda>k. hk k @ hv (map_index (vals om) k)) ks)"
  using assms(3)
proof (induction ks arbitrary: i buf)
  case Nil
  then show ?case by simp
next
  case (Cons k ks)
  let ?buf1 = "if i > 0 then buf @ '','' else buf"
  have b1: "html_chars ?buf1 = html_chars buf" by (simp add: html_chars_Cons html_char_def)
  from Cons.prems obtain ek where ek: "marshalKey (escapeHTML om) k = Inr ek"
    by (cases "marshalKey (escapeHTML om) k") (simp_all add: Let_def Encode_def)
  from Cons.prems ek obtain ev where ev: "marshalT (escapeHTML om) (map_index (vals om) k) = Inr ev"
    by (cases "marshalT (escapeHTML om) (map_index (vals om) k)") (simp_all add: Let_def Encode_def)
  let ?buf4 = "((?buf1 @ ek @ [CHR 0x0A]) @ '':'') @ ev @ [CHR 0x0A]"
  have r: "marshal_entries marshalKey marshalT om (i + 1) ks ?buf4 = Inr out"
    using Cons.prems by (simp add: Let_def Encode_def ek ev)
  have "html_chars out
      = html_chars ?buf4 @ concat (map (\<lambda>k. hk k @ hv (map_index (vals om) k)) ks)"
    by (rule Cons.IH [OF r])
  moreover have "html_chars ?buf4 = html_chars buf @ hk k @ hv (map_index (vals om) k)"
    using assms(1) [OF ek] assms(2) [OF ev] b1
    by (simp add: html_chars_Cons html_char_def)
  ultimately show ?case by simp
qed

lemma html_chars_MarshalJSON:
  assumes "\<And>k t. marshalKey (escapeHTML om) k = Inr t \<Longrightarrow> html_chars t = hk k"
    and "\<And>v t. marshalT (escapeHTML om) v = Inr t \<Longrightarrow> html_chars t = hv v"
    and "MarshalJSON marshalKey marshalT om = Inr out"
  shows "html_chars out = concat (map (\<lambda>k. hk k @ hv (map_index (vals om) k)) (keys om))"
proof -
  from assms(3) obtain buf where b: "marshal_entries marshalKey marshalT om 0 (keys om) ''{'' = Inr buf"
    and o: "out = buf @ ''}''"
    by (cases "marshal_entries marshalKey marshalT om 0 (keys om) ''{''") (auto simp add: MarshalJSON_def)
  have "html_chars buf = html_chars ''{'' @ concat (map (\<lambda>k. hk k @ hv (map_index (vals om) k)) (keys om))"
    by (rule html_chars_marshal_entries [of marshalKey om hk marshalT hv, OF assms(1) assms(2) b])
  then show ?thesis by (simp add: o html_chars_Cons html_char_def)
qed

lemma concat_map_Nil: "concat (map (\<lambda>x. []) xs) = []"
  by (induction xs) simp_all

lemma html_chars_container:
  assumes "MarshalJSON marshal_string marshal_gvalue om = Inr out"
  shows "html_chars out = (if escapeHTML om then [] else html_chars (container_strings om))"
proof -
  have "html_chars out = concat (map (\<lambda>k. (if escapeHTML om then [] else html_chars k)
             @ (if escapeHTML om then [] else html_chars (strings_of (map_index (vals om) k)))) (keys om))"
  proof (rule html_chars_MarshalJSON [of marshal_string om _ marshal_gvalue _ out])
    fix k t assume "marshal_string (escapeHTML om) k = Inr t"
    then show "html_chars t = (if escapeHTML om then [] else html_chars k)"
      by (auto simp add: marshal_string_def html_chars_json_string)
  next
    fix v t assume "marshal_gvalue (escapeHTML om) v = Inr t"
    then show "html_chars t = (if escapeHTML om then [] else html_chars (strings_of v))"
      by (rule html_chars_marshal_gvalue)
  next
    show "MarshalJSON marshal_string marshal_gvalue om = Inr out" by (rule assms)
  qed
  then show ?thesis
    by (cases "escapeHTML om")
       (simp_all add: concat_map_Nil container_strings_def html_chars_concat comp_def)
qed

lemma whitespace_plain: "whitespace c \<Longrightarrow> \<not> html_char c"
  by (auto simp add: whitespace_def html_char_def)

lemma html_chars_compact_loop:
  "html_chars (compact_loop esc i b s) = (if esc then [] else html_chars s)"
  by (induction esc i b s rule: compact_loop.induct)
     (auto simp add: html_chars_Cons whitespace_plain)

lemma html_chars_marshal_OrderedMap:
  assumes "marshal_OrderedMap esc inner = Inr t"
  shows "html_chars t
     = (if esc \<or> escapeHTML inner then [] else html_chars (container_strings inner))"
proof -
  from assms obtain b where b: "MarshalJSON marshal_string marshal_gvalue inner = Inr b"
    and t: "t = compact esc b"
    by (cases "MarshalJSON marshal_string marshal_gvalue inner") (auto simp add: marshal_OrderedMap_def)
  show ?thesis
    using html_chars_container [OF b]
    by (simp add: t compact_def html_chars_compact_loop)
qed



lemma html_chars_nested:
  assumes "MarshalJSON marshal_string marshal_OrderedMap outer = Inr out"
  shows "html_chars out = (if escapeHTML outer then [] else html_chars (nested_strings outer))"
proof -
  have "html_chars out = concat (map (\<lambda>k. (if escapeHTML outer then [] else html_chars k)
             @ (if escapeHTML outer \<or> escapeHTML (map_index (vals outer) k) then []
                else html_chars (container_strings (map_index (vals outer) k)))) (keys outer))"
  proof (rule html_chars_MarshalJSON [of marshal_string outer _ marshal_OrderedMap
        "\<lambda>inner. if escapeHTML outer \<or> escapeHTML inner then []
                else html_chars (container_strings inner)" out])
    fix k t assume "marshal_string (escapeHTML outer) k = Inr t"
    then show "html_chars t = (if escapeHTML outer then [] else html_chars k)"
      by (auto simp add: marshal_string_def html_chars_json_string)
  next
    fix v t assume "marshal_OrderedMap (escapeHTML outer) v = Inr t"
    then show "html_chars t = (if escapeHTML outer \<or> escapeHTML v then []
                else html_chars (container_strings v))"
      by (rule html_chars_marshal_OrderedMap)
  next
    show "MarshalJSON marshal_string marshal_OrderedMap outer = Inr out" by (rule assms)
  qed
  also have "\<dots> = (if escapeHTML outer then [] else html_chars (nested_strings outer))"
  proof (cases "escapeHTML outer")
    case True
    then show ?thesis by (simp add: concat_map_Nil)
  next
    case False
    have "(if escapeHTML v then [] else html_chars (container_strings v))
        = html_chars (if escapeHTML v then [] else container_strings v)" for v :: "gvalue OrderedMap"
      by simp
    then show ?thesis using False
      by (simp add: nested_strings_def html_chars_concat comp_def)
  qed
  finally show ?thesis .
qed

lemma no_escape_test_text:
  "MarshalJSON marshal_string marshal_gvalue no_escape_test
     = Inr (''{\"specialstring\"'' @ [CHR 0x0A] @ '':\"'' @ [CHR 0x5C, CHR 0x5C] @ ''.<>[]{}_-\"''
            @ [CHR 0x0A] @ ''}'')"
  by (simp add: MarshalJSON_def no_escape_test_def Let_def Encode_def marshal_string_def
        map_index_def map_read_def json_string_def escape_char_def html_char_def)

lemma holds_less_than_text:
  "MarshalJSON marshal_string marshal_gvalue holds_less_than
     = Inr (''{\"s\"'' @ [CHR 0x0A] @ '':\"'' @ [CHR 0x5C] @ ''u003c\"'' @ [CHR 0x0A] @ ''}'')"
  by (simp add: MarshalJSON_def holds_less_than_def Let_def Encode_def marshal_string_def
        map_index_def map_read_def json_string_def escape_char_def html_char_def
        unicode_escape_def hex_digit_def)

lemma nested_container_text:
  "MarshalJSON marshal_string marshal_OrderedMap nested_container
     = Inr (''{\"n\"'' @ [CHR 0x0A] @ '':{\"s\":\"'' @ [CHR 0x5C] @ ''u003c\"}'' @ [CHR 0x0A] @ ''}'')"
proof -
  have i: "map_index (vals nested_container) ''n'' = holds_less_than"
    by (simp add: nested_container_def map_index_def map_read_def)
  have k: "keys nested_container = [''n'']" and e: "escapeHTML nested_container = False"
    by (simp_all add: nested_container_def)
  have c: "marshal_OrderedMap False holds_less_than = Inr (''{\"s\":\"'' @ [CHR 0x5C] @ ''u003c\"}'')"
    by (simp add: marshal_OrderedMap_def holds_less_than_text compact_def whitespace_def html_char_def)
  show ?thesis
    by (simp add: MarshalJSON_def k e i c Let_def Encode_def marshal_string_def
          json_string_def escape_char_def html_char_def)
qed

lemma nested_map_text:
  "MarshalJSON marshal_string marshal_gvalue nested_map
     = Inr (''{\"n\"'' @ [CHR 0x0A] @ '':{\"s\":\"<\"}'' @ [CHR 0x0A] @ ''}'')"
  by (simp add: MarshalJSON_def nested_map_def Let_def Encode_def marshal_string_def
        map_index_def map_read_def json_string_def escape_char_def html_char_def
        object_text_def member_text_def)

text \<open>
  C5 as stated fails for a value that is itself an ordered container. The container
  built by \<open>Set("s", "<")\<close> on a new container has the setting of the constructor, on;
  stored under \<open>n\<close> in a container whose setting was turned off, it is encoded by its
  own \<open>MarshalJSON\<close> with its own setting, so that \<open><\<close> is escaped in the output of the
  outer container although the setting of that one is off. A map with the same entry
  in its place is encoded with \<open><\<close> as it is.
\<close>

theorem nested_container_escaped_counterexample:
  "Set ''s'' (GStr ''<'') New = Inr holds_less_than
   \<and> Set ''n'' holds_less_than (SetEscapeHTML False New) = Inr nested_container
   \<and> escapeHTML nested_container = False
   \<and> MarshalJSON marshal_string marshal_OrderedMap nested_container
       = Inr (''{\"n\"'' @ [CHR 0x0A] @ '':{\"s\":\"'' @ [CHR 0x5C] @ ''u003c\"}'' @ [CHR 0x0A] @ ''}'')
   \<and> MarshalJSON marshal_string marshal_gvalue nested_map
       = Inr (''{\"n\"'' @ [CHR 0x0A] @ '':{\"s\":\"<\"}'' @ [CHR 0x0A] @ ''}'')"
proof -
  have 1: "Set ''s'' (GStr ''<'') New = Inr holds_less_than"
    by (simp add: Set_def New_def holds_less_than_def map_read_def)
  have 2: "Set ''n'' holds_less_than (SetEscapeHTML False New) = Inr nested_container"
    by (simp add: Set_def New_def SetEscapeHTML_def nested_container_def map_read_def)
  have 3: "escapeHTML nested_container = False" by (simp add: nested_container_def)
  from 1 2 3 nested_container_text nested_map_text show ?thesis by (intro conjI)
qed

text \<open>
  C5, amended. The constructor sets the flag, \<open>SetEscapeHTML\<close> replaces it. In the
  encoding of a string each of \<open><\<close>, \<open>>\<close> and \<open>&\<close> becomes its Unicode escape when the
  setting is on and is copied when it is off. So in what \<open>MarshalJSON\<close> returns for a
  container of values of type \<open>interface{}\<close> none of the three characters occurs when
  the flag is on, and when it is off all those of the keys and of the strings reached
  through any nesting of maps and slices occur, in their order. A value that is itself
  an ordered container is encoded with its own flag and copied with the flag of the
  container that holds it: its strings are escaped when either flag is on, and are
  emitted as they are only when both are off.
\<close>

theorem escapeHTML_controls_escaping:
  fixes om :: "gvalue OrderedMap" and outer :: "gvalue OrderedMap OrderedMap"
  shows "escapeHTML (New :: gvalue OrderedMap) = True
    \<and> escapeHTML (SetEscapeHTML on om) = on
    \<and> (html_char c \<longrightarrow> escape_char True c = unicode_escape c \<and> escape_char False c = [c])
    \<and> (MarshalJSON marshal_string marshal_gvalue om = Inr out \<longrightarrow>
         html_chars out = (if escapeHTML om then [] else html_chars (container_strings om)))
    \<and> (MarshalJSON marshal_string marshal_OrderedMap outer = Inr out' \<longrightarrow>
         html_chars out' = (if escapeHTML outer then [] else html_chars (nested_strings outer)))"
proof (intro conjI impI)
  show "escapeHTML (New :: gvalue OrderedMap) = True" by (simp add: New_def)
  show "escapeHTML (SetEscapeHTML on om) = on" by (simp add: SetEscapeHTML_def)
next
  assume "html_char c"
  then show "escape_char True c = unicode_escape c" by (simp add: escape_char_html)
next
  assume "html_char c"
  then show "escape_char False c = [c]" by (simp add: escape_char_html)
next
  assume "MarshalJSON marshal_string marshal_gvalue om = Inr out"
  then show "html_chars out = (if escapeHTML om then [] else html_chars (container_strings om))"
    by (rule html_chars_container)
next
  assume "MarshalJSON marshal_string marshal_OrderedMap outer = Inr out'"
  then show "html_chars out' = (if escapeHTML outer then [] else html_chars (nested_strings outer))"
    by (rule html_chars_nested)
qed

theorem escapeHTML_controls_escaping_witness:
  "html_char CHR ''<''
   \<and> escape_char True CHR ''<'' = [CHR 0x5C] @ ''u003c''
   \<and> escape_char False CHR ''<'' = ''<''
   \<and> MarshalJSON marshal_string marshal_gvalue no_escape_test
       = Inr (''{\"specialstring\"'' @ [CHR 0x0A] @ '':\"'' @ [CHR 0x5C, CHR 0x5C] @ ''.<>[]{}_-\"''
            @ [CHR 0x0A] @ ''}'')
   \<and> html_chars (''{\"specialstring\"'' @ [CHR 0x0A] @ '':\"'' @ [CHR 0x5C, CHR 0x5C] @ ''.<>[]{}_-\"''
            @ [CHR 0x0A] @ ''}'') = ''<>''
   \<and> MarshalJSON marshal_string marshal_OrderedMap nested_container
       = Inr (''{\"n\"'' @ [CHR 0x0A] @ '':{\"s\":\"'' @ [CHR 0x5C] @ ''u003c\"}'' @ [CHR 0x0A] @ ''}'')
   \<and> html_chars (nested_strings nested_container) = []"
proof -
  note inst = escapeHTML_controls_escaping [where om = no_escape_test and c = "CHR ''<''"
      and out = "''{\"specialstring\"'' @ [CHR 0x0A] @ '':\"'' @ [CHR 0x5C, CHR 0x5C] @ ''.<>[]{}_-\"''
            @ [CHR 0x0A] @ ''}''"
      and outer = nested_container
      and out' = "''{\"n\"'' @ [CHR 0x0A] @ '':{\"s\":\"'' @ [CHR 0x5C] @ ''u003c\"}'' @ [CHR 0x0A] @ ''}''"]
  have h: "html_char CHR ''<''" by (simp add: html_char_def)
  note e = inst [THEN conjunct2, THEN conjunct2, THEN conjunct1, rule_format, OF h]
  have u: "unicode_escape CHR ''<'' = [CHR 0x5C] @ ''u003c''"
    by (simp add: unicode_escape_def hex_digit_def)
  have 2: "escape_char True CHR ''<'' = [CHR 0x5C] @ ''u003c''"
    using e [THEN conjunct1] by (simp only: u)
  have 3: "escape_char False CHR ''<'' = ''<''"
    using e [THEN conjunct2] .
  have s: "html_chars (container_strings no_escape_test) = ''<>''"
    by (simp add: container_strings_def no_escape_test_def map_index_def map_read_def
          html_chars_def html_char_def)
  have f: "escapeHTML no_escape_test = False" by (simp add: no_escape_test_def)
  have 5: "html_chars (''{\"specialstring\"'' @ [CHR 0x0A] @ '':\"'' @ [CHR 0x5C, CHR 0x5C] @ ''.<>[]{}_-\"''
            @ [CHR 0x0A] @ ''}'') = ''<>''"
    using inst [THEN conjunct2, THEN conjunct2, THEN conjunct2, THEN conjunct1, rule_format,
        OF no_escape_test_text]
    by (simp only: f s if_False)
  have g: "escapeHTML nested_container = False" by (simp add: nested_container_def)
  have t: "html_chars (''{\"n\"'' @ [CHR 0x0A] @ '':{\"s\":\"'' @ [CHR 0x5C] @ ''u003c\"}'' @ [CHR 0x0A] @ ''}'') = []"
    by (simp add: html_chars_def html_char_def)
  have 7: "html_chars (nested_strings nested_container) = []"
    using inst [THEN conjunct2, THEN conjunct2, THEN conjunct2, THEN conjunct2, rule_format,
        OF nested_container_text]
    by (simp only: g t if_False)
  from h 2 3 no_escape_test_text 5 nested_container_text 7 show ?thesis by (intro conjI)
qed

section \<open>Decoding what was encoded\<close>








end
